theory Spec2Isabelle
  imports Complex_Main "HOL-Library.Code_Target_Nat"
begin

section \<open>Flock2: spatial grid, counting sort, neighbour search and clustering\<close>

text \<open>
  A shallow embedding of the sequential (CPU) branches of \<^verbatim>\<open>Flock2::InsertIntoGrid\<close>,
  \<^verbatim>\<open>Flock2::PrefixSumGrid\<close>, \<^verbatim>\<open>Flock2::FindNeighbors\<close>, \<^verbatim>\<open>Flock2::CalculateClusters\<close>
  and \<^verbatim>\<open>Flock2::UpdateFlockData\<close> of \<^verbatim>\<open>source/app_flock.cpp\<close>.

  Conventions of the embedding:
  \<^item> a C++ \<^verbatim>\<open>float\<close> is a value of \<open>flt\<close>: a finite value (a rational; rounding is not
    modelled), one of the two infinities, or NaN, with IEEE 754 rules for the special
    values (signed zeros are not modelled);
  \<^item> a C++ \<^verbatim>\<open>int\<close> is an \<open>int\<close>, a \<^verbatim>\<open>uint\<close> buffer entry is a \<open>nat\<close>; the places where the
    32-bit range matters are written out;
  \<^item> a buffer is a list; a read or write outside the buffer, a conversion with undefined
    behaviour and a \<^verbatim>\<open>std::out_of_range\<close> thrown by \<^verbatim>\<open>vector::at\<close> are error results.
\<close>

subsection \<open>Floats and vectors\<close>

datatype flt = Finite rat | PlusInf | MinusInf | NaN

fun fneg :: "flt \<Rightarrow> flt" where
  "fneg (Finite a) = Finite (- a)"
| "fneg PlusInf = MinusInf"
| "fneg MinusInf = PlusInf"
| "fneg NaN = NaN"

fun fadd :: "flt \<Rightarrow> flt \<Rightarrow> flt" where
  "fadd (Finite a) (Finite b) = Finite (a + b)"
| "fadd NaN _ = NaN"
| "fadd _ NaN = NaN"
| "fadd PlusInf MinusInf = NaN"
| "fadd MinusInf PlusInf = NaN"
| "fadd PlusInf _ = PlusInf"
| "fadd MinusInf _ = MinusInf"
| "fadd _ PlusInf = PlusInf"
| "fadd _ MinusInf = MinusInf"

definition fsub :: "flt \<Rightarrow> flt \<Rightarrow> flt" where
  "fsub a b = fadd a (fneg b)"

text \<open>The sign of a non-NaN float: \<open>-1\<close>, \<open>0\<close> or \<open>1\<close>.\<close>

fun fsgn :: "flt \<Rightarrow> int" where
  "fsgn (Finite a) = (if a < 0 then - 1 else if a = 0 then 0 else 1)"
| "fsgn PlusInf = 1"
| "fsgn MinusInf = - 1"
| "fsgn NaN = 0"

definition inf_of_sign :: "int \<Rightarrow> flt" where
  "inf_of_sign s = (if s = 0 then NaN else if s < 0 then MinusInf else PlusInf)"

fun fmul :: "flt \<Rightarrow> flt \<Rightarrow> flt" where
  "fmul (Finite a) (Finite b) = Finite (a * b)"
| "fmul NaN _ = NaN"
| "fmul _ NaN = NaN"
| "fmul a b = inf_of_sign (fsgn a * fsgn b)"

fun fdiv :: "flt \<Rightarrow> flt \<Rightarrow> flt" where
  "fdiv (Finite a) (Finite b) = (if b = 0 then inf_of_sign (fsgn (Finite a)) else Finite (a / b))"
| "fdiv NaN _ = NaN"
| "fdiv _ NaN = NaN"
| "fdiv (Finite a) _ = Finite 0"
| "fdiv a (Finite b) = inf_of_sign (fsgn a * (if b < 0 then - 1 else 1))"
| "fdiv _ _ = NaN"

text \<open>The comparison \<^verbatim>\<open>a < b\<close>; false as soon as one side is NaN. \<^verbatim>\<open>a > b\<close> is \<open>flt_less b a\<close>.\<close>

fun flt_less :: "flt \<Rightarrow> flt \<Rightarrow> bool" where
  "flt_less (Finite a) (Finite b) = (a < b)"
| "flt_less NaN _ = False"
| "flt_less _ NaN = False"
| "flt_less MinusInf b = (b \<noteq> MinusInf)"
| "flt_less a PlusInf = (a \<noteq> PlusInf)"
| "flt_less _ _ = False"

definition INT_MAX :: int where
  "INT_MAX = 2147483647"

definition INT_MIN :: int where
  "INT_MIN = - 2147483648"

text \<open>
  The conversion \<^verbatim>\<open>int(f)\<close>: truncation toward zero. Its behaviour is undefined when the
  truncated value is not representable as an \<^verbatim>\<open>int\<close>, in particular for NaN and the
  infinities; that is the result \<open>None\<close>.
\<close>

fun f2i :: "flt \<Rightarrow> int option" where
  "f2i (Finite a) =
     (let t = (if 0 \<le> a then \<lfloor>a\<rfloor> else \<lceil>a\<rceil>)
      in if INT_MIN \<le> t \<and> t \<le> INT_MAX then Some t else None)"
| "f2i _ = None"

text \<open>The conversion \<^verbatim>\<open>float(i)\<close> of an \<^verbatim>\<open>int\<close>.\<close>

definition i2f :: "int \<Rightarrow> flt" where
  "i2f i = Finite (of_int i)"

datatype Vec3F = Vec3F (vx: flt) (vy: flt) (vz: flt)

datatype Vec3I = Vec3I (ix: int) (iy: int) (iz: int)

text \<open>
  \<^verbatim>\<open>Vec3F\<close> is declared in \<^verbatim>\<open>vec.h\<close>, which is not part of the sources at hand; its
  operators are component-wise. \<^verbatim>\<open>Vec3F::Normalize\<close> is taken as a parameter where it is used.
\<close>

definition vsub :: "Vec3F \<Rightarrow> Vec3F \<Rightarrow> Vec3F" where
  "vsub a b = Vec3F (fsub (vx a) (vx b)) (fsub (vy a) (vy b)) (fsub (vz a) (vz b))"

definition vadd :: "Vec3F \<Rightarrow> Vec3F \<Rightarrow> Vec3F" where
  "vadd a b = Vec3F (fadd (vx a) (vx b)) (fadd (vy a) (vy b)) (fadd (vz a) (vz b))"

definition vmul :: "Vec3F \<Rightarrow> Vec3F \<Rightarrow> Vec3F" where
  "vmul a b = Vec3F (fmul (vx a) (vx b)) (fmul (vy a) (vy b)) (fmul (vz a) (vz b))"

definition vscale :: "Vec3F \<Rightarrow> flt \<Rightarrow> Vec3F" where
  "vscale a s = Vec3F (fmul (vx a) s) (fmul (vy a) s) (fmul (vz a) s)"

definition vdivs :: "Vec3F \<Rightarrow> flt \<Rightarrow> Vec3F" where
  "vdivs a s = Vec3F (fdiv (vx a) s) (fdiv (vy a) s) (fdiv (vz a) s)"

definition vdot :: "Vec3F \<Rightarrow> Vec3F \<Rightarrow> flt" where
  "vdot a b = fadd (fadd (fmul (vx a) (vx b)) (fmul (vy a) (vy b))) (fmul (vz a) (vz b))"

definition vzero :: Vec3F where
  "vzero = Vec3F (Finite 0) (Finite 0) (Finite 0)"

subsection \<open>Data\<close>

text \<open>The fields of \<^verbatim>\<open>struct Accel\<close> (\<^verbatim>\<open>flock_types.h\<close>) that the modelled functions read.\<close>

record Accel =
  psmoothradius :: flt
  sim_scale :: flt
  gridDelta :: Vec3F
  gridMin :: Vec3F
  gridRes :: Vec3I
  gridScanMax :: Vec3I
  gridSrch :: int
  gridTotal :: int
  gridAdjCnt :: int
  gridAdj :: "int list"

text \<open>The fields of \<^verbatim>\<open>struct Bird\<close> that the modelled functions read or write.\<close>

record Bird =
  pos :: Vec3F
  vel :: Vec3F
  ave_pos :: Vec3F
  ave_vel :: Vec3F
  near_j :: int
  t_nbrs :: int
  r_nbrs :: int
  cluster_id :: int

text \<open>
  The simulation parameters \<^verbatim>\<open>m_Params\<close> that the modelled functions read.
  \<^verbatim>\<open>m_Params.num_birds\<close> is the length of the bird buffer.
\<close>

record Params =
  neighbors :: int
  fovcos :: flt
  cluster_threshold_dist :: flt

text \<open>
  The buffers of \<^verbatim>\<open>m_Grid\<close> (\<^verbatim>\<open>AGRID\<close>, \<^verbatim>\<open>AGRIDCNT\<close>, \<^verbatim>\<open>AGRIDOFF\<close>) and the two per-bird
  buffers \<^verbatim>\<open>FGCELL\<close> and \<^verbatim>\<open>FGNDX\<close> of \<^verbatim>\<open>m_Birds\<close>.
\<close>

record Grid =
  AGRID :: "nat list"
  AGRIDCNT :: "nat list"
  AGRIDOFF :: "nat list"
  FGCELL :: "nat list"
  FGNDX :: "nat list"

definition GRID_UNDEF :: nat where
  "GRID_UNDEF = 2147483647"

datatype error =
  UndefinedConversion
  | GridOutOfBounds
  | BirdOutOfBounds
  | SortNbrOutOfBounds
  | ClusterOutOfRange
  | HistogramOutOfRange
  | ConfigurationError

subsection \<open>Loops that can fail\<close>

text \<open>A \<^verbatim>\<open>for\<close> loop over the elements of a list whose body can fail: the first error ends it.\<close>

fun efold :: "('a \<Rightarrow> 's \<Rightarrow> error + 's) \<Rightarrow> 'a list \<Rightarrow> 's \<Rightarrow> error + 's" where
  "efold f [] s = Inr s"
| "efold f (x # xs) s = (case f x s of Inl e \<Rightarrow> Inl e | Inr s' \<Rightarrow> efold f xs s')"

subsection \<open>InitializeGrid\<close>

text \<open>
  The integer part of \<^verbatim>\<open>Flock2::InitializeGrid\<close> (lines 800-814 and 840-845). The grid
  bounds, \<open>gridDelta\<close>, the resolution \<open>gridRes\<close> and the raw search count come out of
  float computations and are inputs here. The buffers are allocated with \<open>gridTotal\<close>
  cells and \<open>numPoints\<close> birds.
\<close>

definition gridAdj_table :: "Vec3I \<Rightarrow> int \<Rightarrow> int list" where
  "gridAdj_table res srch =
     concat (map (\<lambda>y. concat (map (\<lambda>z. map (\<lambda>x. (y * iz res + z) * ix res + x)
       [0..srch - 1]) [0..srch - 1])) [0..srch - 1])"

definition InitializeGrid ::
  "flt \<Rightarrow> flt \<Rightarrow> Vec3F \<Rightarrow> Vec3F \<Rightarrow> Vec3I \<Rightarrow> int \<Rightarrow> error + Accel" where
  "InitializeGrid radius scale gmin gdelta res srch0 =
     (let srch = (if srch0 < 2 then 2 else srch0) in
      if srch > 6 then Inl ConfigurationError
      else Inr \<lparr> psmoothradius = radius, sim_scale = scale,
                 gridDelta = gdelta, gridMin = gmin, gridRes = res,
                 gridScanMax = Vec3I (ix res - srch) (iy res - srch) (iz res - srch),
                 gridSrch = srch,
                 gridTotal = ix res * iy res * iz res,
                 gridAdjCnt = srch * srch * srch,
                 gridAdj = gridAdj_table res srch \<rparr>)"

subsection \<open>InsertIntoGrid\<close>

text \<open>Lines 899-900: the cell coordinate of a position.\<close>

definition cell_coord :: "Accel \<Rightarrow> Vec3F \<Rightarrow> error + Vec3I" where
  "cell_coord acc ppos =
     (let gcf = vmul (vsub ppos (gridMin acc)) (gridDelta acc)
      in case (f2i (vx gcf), f2i (vy gcf), f2i (vz gcf)) of
           (Some a, Some b, Some c) \<Rightarrow> Inr (Vec3I a b c)
         | _ \<Rightarrow> Inl UndefinedConversion)"

text \<open>Line 901: the flattened cell index.\<close>

definition flat_index :: "Accel \<Rightarrow> Vec3I \<Rightarrow> int" where
  "flat_index acc gc = (iy gc * iz (gridRes acc) + iz gc) * ix (gridRes acc) + ix gc"

text \<open>Line 903: the test for the interior scan region.\<close>

definition in_scan :: "Accel \<Rightarrow> Vec3I \<Rightarrow> bool" where
  "in_scan acc gc \<longleftrightarrow>
     ix gc \<ge> 1 \<and> ix gc \<le> ix (gridScanMax acc) \<and>
     iy gc \<ge> 1 \<and> iy gc \<le> iy (gridScanMax acc) \<and>
     iz gc \<ge> 1 \<and> iz gc \<le> iz (gridScanMax acc)"

text \<open>
  Lines 896-911: the body of the loop for bird \<open>n\<close>. The index \<open>gs\<close> is computed before
  the test and only used under it.
\<close>

definition insert_bird :: "Accel \<Rightarrow> Bird list \<Rightarrow> nat \<Rightarrow> Grid \<Rightarrow> error + Grid" where
  "insert_bird acc birds n g =
     (if n < length birds \<and> n < length (FGCELL g) \<and> n < length (FGNDX g) then
        (case cell_coord acc (pos (birds ! n)) of
           Inl e \<Rightarrow> Inl e
         | Inr gc \<Rightarrow>
             (let gs = flat_index acc gc in
              if in_scan acc gc then
                (if 0 \<le> gs \<and> nat gs < length (AGRIDCNT g) then
                   Inr (g\<lparr> FGCELL := (FGCELL g)[n := nat gs],
                           FGNDX := (FGNDX g)[n := AGRIDCNT g ! nat gs],
                           AGRIDCNT := (AGRIDCNT g)[nat gs := AGRIDCNT g ! nat gs + 1] \<rparr>)
                 else Inl GridOutOfBounds)
              else Inr (g\<lparr> FGCELL := (FGCELL g)[n := GRID_UNDEF] \<rparr>)))
      else Inl BirdOutOfBounds)"

text \<open>
  Lines 877-912. The four \<^verbatim>\<open>memset\<close> calls zero the buffers over their allocated sizes;
  \<^verbatim>\<open>AGRID\<close> is left as it was.
\<close>

definition InsertIntoGrid :: "Accel \<Rightarrow> Bird list \<Rightarrow> Grid \<Rightarrow> error + Grid" where
  "InsertIntoGrid acc birds g0 =
     (let numPoints = length birds;
          g = g0\<lparr> AGRIDCNT := replicate (nat (gridTotal acc)) 0,
                  AGRIDOFF := replicate (nat (gridTotal acc)) 0,
                  FGCELL := replicate numPoints 0,
                  FGNDX := replicate numPoints 0 \<rparr>
      in efold (insert_bird acc birds) [0..<numPoints] g)"

subsection \<open>PrefixSumGrid\<close>

text \<open>Lines 991-994: one step of the scan; the state is the grid and the running \<^verbatim>\<open>sum\<close>.\<close>

definition prefix_step :: "nat \<Rightarrow> Grid \<times> nat \<Rightarrow> error + Grid \<times> nat" where
  "prefix_step n gs =
     (case gs of (g, s) \<Rightarrow>
        if n < length (AGRIDOFF g) \<and> n < length (AGRIDCNT g)
        then Inr (g\<lparr> AGRIDOFF := (AGRIDOFF g)[n := s] \<rparr>, s + AGRIDCNT g ! n)
        else Inl GridOutOfBounds)"

text \<open>Lines 1000-1002.\<close>

definition undef_step :: "nat \<Rightarrow> Grid \<Rightarrow> error + Grid" where
  "undef_step k g =
     (if k < length (AGRID g) then Inr (g\<lparr> AGRID := (AGRID g)[k := GRID_UNDEF] \<rparr>)
      else Inl GridOutOfBounds)"

text \<open>Lines 1003-1011: the scatter of bird \<open>j\<close>.\<close>

definition scatter_step :: "nat \<Rightarrow> Grid \<Rightarrow> error + Grid" where
  "scatter_step j g =
     (if j < length (FGCELL g) \<and> j < length (FGNDX g) then
        (if FGCELL g ! j \<noteq> GRID_UNDEF then
           (if FGCELL g ! j < length (AGRIDOFF g) then
              (let sort_ndx = AGRIDOFF g ! (FGCELL g ! j) + FGNDX g ! j in
               if sort_ndx < length (AGRID g)
               then Inr (g\<lparr> AGRID := (AGRID g)[sort_ndx := j] \<rparr>)
               else Inl GridOutOfBounds)
            else Inl GridOutOfBounds)
         else Inr g)
      else Inl BirdOutOfBounds)"

definition PrefixSumGrid :: "Accel \<Rightarrow> nat \<Rightarrow> Grid \<Rightarrow> error + Grid" where
  "PrefixSumGrid acc numPoints g =
     (let numCells = nat (gridTotal acc) in
      case efold prefix_step [0..<numCells] (g, 0) of
        Inl e \<Rightarrow> Inl e
      | Inr (g1, s) \<Rightarrow>
          (case efold undef_step [0..<numPoints] g1 of
             Inl e \<Rightarrow> Inl e
           | Inr g2 \<Rightarrow> efold scatter_step [0..<numPoints] g2))"

text \<open>The bucket of cell \<open>c\<close>: the entries of \<^verbatim>\<open>AGRID\<close> from \<open>offset[c]\<close> to \<open>offset[c] + count[c]\<close>.\<close>

definition bucket :: "Grid \<Rightarrow> nat \<Rightarrow> nat list" where
  "bucket g c = map (\<lambda>k. AGRID g ! k) [AGRIDOFF g ! c ..< AGRIDOFF g ! c + AGRIDCNT g ! c]"

subsection \<open>FindNeighbors\<close>

text \<open>
  The state that \<^verbatim>\<open>Flock2::FindNeighbors\<close> updates: the bird buffer, the cluster tables
  and the three locals of the bounded insertion list, which live across the iterations
  of the loop over the birds (only \<open>sort_num\<close> is reset for each bird).
\<close>

record FState =
  m_Birds :: "Bird list"
  cluster_assignment :: "nat list list"
  max_cluster_id :: int
  sort_d_nbr :: "flt list"
  sort_j_nbr :: "int list"
  sort_num :: int

text \<open>\<^verbatim>\<open>cluster_assignment.at(c)\<close> throws \<^verbatim>\<open>std::out_of_range\<close> outside the vector.\<close>

definition at_cluster :: "nat list list \<Rightarrow> int \<Rightarrow> error + nat list" where
  "at_cluster ca c = (if 0 \<le> c \<and> nat c < length ca then Inr (ca ! nat c) else Inl ClusterOutOfRange)"

text \<open>\<^verbatim>\<open>cluster_assignment.at(c).push_back(m)\<close>.\<close>

definition push_cluster :: "nat list list \<Rightarrow> int \<Rightarrow> nat \<Rightarrow> error + nat list list" where
  "push_cluster ca c m =
     (if 0 \<le> c \<and> nat c < length ca then Inr (ca[nat c := ca ! nat c @ [m]])
      else Inl ClusterOutOfRange)"

definition set_cluster_id :: "Bird list \<Rightarrow> nat \<Rightarrow> int \<Rightarrow> Bird list" where
  "set_cluster_id bs n c = bs[n := (bs ! n)\<lparr> cluster_id := c \<rparr>]"

text \<open>Lines 1135-1139: one member \<open>kk\<close> of the cluster that is merged away.\<close>

definition merge_member :: "int \<Rightarrow> nat \<Rightarrow> FState \<Rightarrow> error + FState" where
  "merge_member merge_to_id kk st =
     (if kk < length (m_Birds st) then
        (case push_cluster (cluster_assignment st) merge_to_id kk of
           Inl e \<Rightarrow> Inl e
         | Inr ca \<Rightarrow>
             Inr (st\<lparr> m_Birds := set_cluster_id (m_Birds st) kk merge_to_id,
                      cluster_assignment := ca \<rparr>))
      else Inl BirdOutOfBounds)"

text \<open>Lines 1125-1128: a neighbour without a cluster joins the cluster of bird \<open>i\<close>.\<close>

definition cluster_join :: "nat \<Rightarrow> nat \<Rightarrow> FState \<Rightarrow> error + FState" where
  "cluster_join i j st =
     (if cluster_id (m_Birds st ! j) = - 1 then
        (case push_cluster (cluster_assignment st) (cluster_id (m_Birds st ! i)) j of
           Inl e \<Rightarrow> Inl e
         | Inr ca \<Rightarrow>
             Inr (st\<lparr> m_Birds := set_cluster_id (m_Birds st) j (cluster_id (m_Birds st ! i)),
                      cluster_assignment := ca \<rparr>))
      else Inr st)"

text \<open>
  Lines 1129-1142: the cluster of the neighbour is merged into the cluster of bird \<open>i\<close>.
  The loop runs over the members of the cluster merged away; that list does not change
  during the loop, since the two cluster ids differ.
\<close>

definition cluster_merge :: "nat \<Rightarrow> nat \<Rightarrow> FState \<Rightarrow> error + FState" where
  "cluster_merge i j st =
     (if cluster_id (m_Birds st ! j) \<noteq> cluster_id (m_Birds st ! i) then
        (let merge_from_id = cluster_id (m_Birds st ! j);
             merge_to_id = cluster_id (m_Birds st ! i)
         in case at_cluster (cluster_assignment st) merge_from_id of
              Inl e \<Rightarrow> Inl e
            | Inr members \<Rightarrow>
                (case efold (merge_member merge_to_id) members st of
                   Inl e \<Rightarrow> Inl e
                 | Inr st' \<Rightarrow>
                     Inr (st'\<lparr> cluster_assignment :=
                                 (cluster_assignment st')[nat merge_from_id := []] \<rparr>)))
      else Inr st)"

definition cluster_pair :: "nat \<Rightarrow> nat \<Rightarrow> FState \<Rightarrow> error + FState" where
  "cluster_pair i j st =
     (case cluster_join i j st of Inl e \<Rightarrow> Inl e | Inr st' \<Rightarrow> cluster_merge i j st')"

text \<open>
  Line 1155: the search for the place of \<open>dsq\<close>. The condition reads \<open>sort_d_nbr[k]\<close>
  first and tests \<open>k < sort_num\<close> second.
\<close>

function find_k :: "flt list \<Rightarrow> flt \<Rightarrow> int \<Rightarrow> int \<Rightarrow> error + int" where
  "find_k d dsq snum k =
     (if 0 \<le> k \<and> nat k < length d then
        (if flt_less (d ! nat k) dsq \<and> k < snum then find_k d dsq snum (k + 1) else Inr k)
      else Inl SortNbrOutOfBounds)"
  by pat_completeness auto
termination
  by (relation "measure (\<lambda>(d, dsq, snum, k). nat (snum - k))") auto

declare find_k.simps [simp del]

text \<open>Lines 1162-1165: the entries from \<open>m\<close> down to \<open>k\<close> move one place up.\<close>

function shift_down :: "flt list \<times> int list \<Rightarrow> int \<Rightarrow> int \<Rightarrow> error + flt list \<times> int list" where
  "shift_down dj m k =
     (if m \<ge> k then
        (case dj of (d, js) \<Rightarrow>
           if 0 \<le> m \<and> nat (m + 1) < length d \<and> nat (m + 1) < length js
           then shift_down (d[nat (m + 1) := d ! nat m], js[nat (m + 1) := js ! nat m]) (m - 1) k
           else Inl SortNbrOutOfBounds)
      else Inr dj)"
  by pat_completeness auto
termination
  by (relation "measure (\<lambda>(dj, m, k). nat (m - k + 1))") auto

declare shift_down.simps [simp del]

text \<open>Lines 1155-1172: the bounded insertion of candidate \<open>j\<close> at squared distance \<open>dsq\<close>.\<close>

definition nbr_insert :: "int \<Rightarrow> flt \<Rightarrow> nat \<Rightarrow> FState \<Rightarrow> error + FState" where
  "nbr_insert K dsq j st =
     (case find_k (sort_d_nbr st) dsq (sort_num st) 0 of
        Inl e \<Rightarrow> Inl e
      | Inr k \<Rightarrow>
          if k \<le> sort_num st then
            (case (if k \<noteq> sort_num st
                   then shift_down (sort_d_nbr st, sort_j_nbr st) (sort_num st - 1) k
                   else Inr (sort_d_nbr st, sort_j_nbr st)) of
               Inl e \<Rightarrow> Inl e
             | Inr (d, js) \<Rightarrow>
                 if 0 \<le> k \<and> nat k < length d \<and> nat k < length js then
                   Inr (st\<lparr> sort_d_nbr := d[nat k := dsq],
                            sort_j_nbr := js[nat k := int j],
                            sort_num := (if sort_num st + 1 > K then K else sort_num st + 1) \<rparr>)
                 else Inl SortNbrOutOfBounds)
          else Inr st)"

text \<open>Line 1175.\<close>

definition count_r_nbrs :: "nat \<Rightarrow> FState \<Rightarrow> FState" where
  "count_r_nbrs i st =
     st\<lparr> m_Birds := (m_Birds st)[i := (m_Birds st ! i)\<lparr> r_nbrs := r_nbrs (m_Birds st ! i) + 1 \<rparr>] \<rparr>"

text \<open>Lines 1121-1122: the squared distance.\<close>

definition dist_sq :: "Vec3F \<Rightarrow> Vec3F \<Rightarrow> flt" where
  "dist_sq posi posj = (let dist = vsub posi posj in vdot dist dist)"

text \<open>Lines 1124-1143: the clustering test for the pair.\<close>

definition cluster_test :: "Params \<Rightarrow> nat \<Rightarrow> nat \<Rightarrow> flt \<Rightarrow> FState \<Rightarrow> error + FState" where
  "cluster_test prm i j dsq st =
     (if flt_less dsq (fmul (cluster_threshold_dist prm) (cluster_threshold_dist prm))
      then cluster_pair i j st else Inr st)"

text \<open>Lines 1145-1178: the radius test, the field-of-view test and the insertion.\<close>

definition nbr_test ::
  "Params \<Rightarrow> (Vec3F \<Rightarrow> Vec3F) \<Rightarrow> flt \<Rightarrow> nat \<Rightarrow> Vec3F \<Rightarrow> Vec3F \<Rightarrow> nat \<Rightarrow> Vec3F \<Rightarrow> flt \<Rightarrow> FState
     \<Rightarrow> error + FState" where
  "nbr_test prm nrm rd2 i posi diri j posj dsq st =
     (if flt_less dsq rd2 then
        (let dirj = nrm (vsub posj posi);
             birdang = vdot diri dirj
         in if flt_less (fovcos prm) birdang then
              (case nbr_insert (neighbors prm) dsq j st of
                 Inl e \<Rightarrow> Inl e
               | Inr st' \<Rightarrow> Inr (count_r_nbrs i st'))
            else Inr st)
      else Inr st)"

text \<open>
  Lines 1115-1178: the body of the innermost loop, for the entry \<open>j\<close> read from
  \<^verbatim>\<open>AGRID\<close>; \<open>posi\<close> and \<open>diri\<close> are the locals set before the scan of bird \<open>i\<close>. The entry is
  a \<^verbatim>\<open>uint\<close> stored into the \<^verbatim>\<open>int\<close> \<open>j\<close>: one above \<open>INT_MAX\<close> would become negative and
  index the bird buffer out of bounds.
\<close>

definition visit ::
  "Params \<Rightarrow> (Vec3F \<Rightarrow> Vec3F) \<Rightarrow> flt \<Rightarrow> nat \<Rightarrow> Vec3F \<Rightarrow> Vec3F \<Rightarrow> nat \<Rightarrow> FState \<Rightarrow> error + FState" where
  "visit prm nrm rd2 i posi diri j st =
     (if int j > INT_MAX then Inl BirdOutOfBounds
      else if j \<ge> length (m_Birds st) then Inr st
      else if i = j then Inr st
      else
        (let posj = pos (m_Birds st ! j);
             dsq = dist_sq posi posj
         in case cluster_test prm i j dsq st of
              Inl e \<Rightarrow> Inl e
            | Inr st1 \<Rightarrow> nbr_test prm nrm rd2 i posi diri j posj dsq st1))"

text \<open>Lines 1110-1112: the loop over the bucket of one cell.\<close>

definition scan_cell :: "(nat \<Rightarrow> FState \<Rightarrow> error + FState) \<Rightarrow> Grid \<Rightarrow> int \<Rightarrow> FState \<Rightarrow> error + FState" where
  "scan_cell body g cell st =
     (if 0 \<le> cell \<and> nat cell < length (AGRIDOFF g) \<and> nat cell < length (AGRIDCNT g) then
        (let clast = AGRIDOFF g ! nat cell + AGRIDCNT g ! nat cell
         in efold (\<lambda>cndx s. if cndx < length (AGRID g) then body (AGRID g ! cndx) s
                              else Inl GridOutOfBounds)
              [AGRIDOFF g ! nat cell ..< clast] st)
      else Inl GridOutOfBounds)"

text \<open>Lines 1108-1109: the loop over the adjacency window; \<open>gc\<close> is the cell less \<open>nadj\<close>.\<close>

definition scan_window ::
  "(nat \<Rightarrow> FState \<Rightarrow> error + FState) \<Rightarrow> Accel \<Rightarrow> Grid \<Rightarrow> int \<Rightarrow> FState \<Rightarrow> error + FState" where
  "scan_window body acc g gc st =
     efold (\<lambda>c s. if c < length (gridAdj acc) then scan_cell body g (gc + gridAdj acc ! c) s
                   else Inl GridOutOfBounds)
       [0..<nat (gridAdjCnt acc)] st"

text \<open>Lines 1077-1085: a bird without a cluster opens a new one.\<close>

definition new_cluster :: "nat \<Rightarrow> FState \<Rightarrow> FState" where
  "new_cluster i st =
     (if cluster_id (m_Birds st ! i) = - 1 then
        st\<lparr> max_cluster_id := max_cluster_id st + 1,
            m_Birds := set_cluster_id (m_Birds st) i (max_cluster_id st + 1),
            cluster_assignment := cluster_assignment st @ [[i]] \<rparr>
      else st)"

text \<open>Lines 1091-1100.\<close>

definition clear_bird :: "nat \<Rightarrow> FState \<Rightarrow> FState" where
  "clear_bird i st =
     st\<lparr> m_Birds := (m_Birds st)[i := (m_Birds st ! i)\<lparr> ave_pos := vzero, ave_vel := vzero,
            near_j := - 1, t_nbrs := 0, r_nbrs := 0 \<rparr>],
         sort_num := 0 \<rparr>"

text \<open>Lines 1184-1188: the sums over the retained list.\<close>

definition add_nbr :: "nat \<Rightarrow> nat \<Rightarrow> FState \<Rightarrow> error + FState" where
  "add_nbr i k st =
     (if k < length (sort_j_nbr st) then
        (let jj = sort_j_nbr st ! k in
         if 0 \<le> jj \<and> nat jj < length (m_Birds st) then
           Inr (st\<lparr> m_Birds := (m_Birds st)[i := (m_Birds st ! i)
                      \<lparr> ave_pos := vadd (ave_pos (m_Birds st ! i)) (pos (m_Birds st ! nat jj)),
                        ave_vel := vadd (ave_vel (m_Birds st ! i)) (vel (m_Birds st ! nat jj)) \<rparr>] \<rparr>)
         else Inl BirdOutOfBounds)
      else Inl SortNbrOutOfBounds)"

text \<open>Lines 1189-1195.\<close>

definition finish_bird :: "nat \<Rightarrow> FState \<Rightarrow> error + FState" where
  "finish_bird i st =
     (if 0 < length (sort_j_nbr st) then
        (let b1 = (m_Birds st ! i)\<lparr> near_j := sort_j_nbr st ! 0, t_nbrs := sort_num st \<rparr>;
             b2 = (if sort_num st > 0
                   then b1\<lparr> ave_pos := vscale (ave_pos b1) (fdiv (Finite 1) (i2f (sort_num st))),
                            ave_vel := vscale (ave_vel b1) (fdiv (Finite 1) (i2f (sort_num st))) \<rparr>
                   else b1)
         in Inr (st\<lparr> m_Birds := (m_Birds st)[i := b2] \<rparr>))
      else Inl SortNbrOutOfBounds)"

definition aggregate :: "nat \<Rightarrow> FState \<Rightarrow> error + FState" where
  "aggregate i st =
     (case efold (add_nbr i) [0..<nat (sort_num st)] st of
        Inl e \<Rightarrow> Inl e
      | Inr st' \<Rightarrow> finish_bird i st')"

text \<open>
  Lines 1072-1181: the first part of the body of the loop over the birds, up to the end
  of the scan of the adjacency window.
\<close>

definition bird_scan ::
  "Accel \<Rightarrow> Params \<Rightarrow> (Vec3F \<Rightarrow> Vec3F) \<Rightarrow> flt \<Rightarrow> int \<Rightarrow> Grid \<Rightarrow> nat \<Rightarrow> FState \<Rightarrow> error + FState" where
  "bird_scan acc prm nrm rd2 nadj g i st =
     (if i < length (m_Birds st) \<and> i < length (FGCELL g) then
        (let posi = pos (m_Birds st ! i);
             st1 = new_cluster i st;
             diri = nrm (vel (m_Birds st1 ! i));
             st2 = clear_bird i st1;
             gc = FGCELL g ! i
         in if gc \<noteq> GRID_UNDEF
            then scan_window (visit prm nrm rd2 i posi diri) acc g (int gc - nadj) st2
            else Inr st2)
      else Inl BirdOutOfBounds)"

text \<open>Lines 1072-1197: the body of the loop over the birds.\<close>

definition bird_step ::
  "Accel \<Rightarrow> Params \<Rightarrow> (Vec3F \<Rightarrow> Vec3F) \<Rightarrow> flt \<Rightarrow> int \<Rightarrow> Grid \<Rightarrow> nat \<Rightarrow> FState \<Rightarrow> error + FState" where
  "bird_step acc prm nrm rd2 nadj g i st =
     (case bird_scan acc prm nrm rd2 nadj g i st of
        Inl e \<Rightarrow> Inl e
      | Inr st3 \<Rightarrow> aggregate i st3)"

text \<open>
  Lines 1032-1197. \<open>nrm\<close> is \<^verbatim>\<open>Vec3F::Normalize\<close>; \<open>d0\<close> and \<open>j0\<close> are the indeterminate
  initial contents of the arrays \<^verbatim>\<open>sort_d_nbr[16]\<close> and \<^verbatim>\<open>sort_j_nbr[16]\<close>.
\<close>

definition search_radius_sq :: "Accel \<Rightarrow> flt" where
  "search_radius_sq acc =
     fdiv (fmul (psmoothradius acc) (psmoothradius acc)) (fmul (sim_scale acc) (sim_scale acc))"

definition nadj_of :: "Accel \<Rightarrow> int" where
  "nadj_of acc = (iz (gridRes acc) + 1) * ix (gridRes acc) + 1"

definition init_state :: "flt list \<Rightarrow> int list \<Rightarrow> Bird list \<Rightarrow> FState" where
  "init_state d0 j0 bs =
     \<lparr> m_Birds = map (\<lambda>b. b\<lparr> cluster_id := - 1 \<rparr>) bs,
       cluster_assignment = [],
       max_cluster_id = - 1,
       sort_d_nbr = d0[0 := Finite 100000],
       sort_j_nbr = j0[0 := - 1],
       sort_num = 0 \<rparr>"

definition FindNeighbors ::
  "Accel \<Rightarrow> Params \<Rightarrow> (Vec3F \<Rightarrow> Vec3F) \<Rightarrow> Grid \<Rightarrow> flt list \<Rightarrow> int list \<Rightarrow> Bird list \<Rightarrow> error + FState" where
  "FindNeighbors acc prm nrm g d0 j0 bs =
     (if 0 < length d0 \<and> 0 < length j0 then
        efold (bird_step acc prm nrm (search_radius_sq acc) (nadj_of acc) g)
          [0..<length bs] (init_state d0 j0 bs)
      else Inl SortNbrOutOfBounds)"

subsection \<open>Invariants of the bucketizer\<close>

definition count_inv :: "nat \<Rightarrow> nat \<Rightarrow> nat \<Rightarrow> Grid \<Rightarrow> bool" where
  "count_inv N T k g \<longleftrightarrow>
     length (AGRIDCNT g) = T \<and> length (AGRIDOFF g) = T \<and>
     length (FGCELL g) = N \<and> length (FGNDX g) = N \<and>
     (\<forall>n<k. FGCELL g ! n = GRID_UNDEF \<or> FGCELL g ! n < T) \<and>
     (\<forall>c<T. bij_betw (\<lambda>n. FGNDX g ! n) {n. n < k \<and> FGCELL g ! n = c} {0..<AGRIDCNT g ! c})"

definition scan_inv :: "Grid \<Rightarrow> nat \<Rightarrow> Grid \<times> nat \<Rightarrow> bool" where
  "scan_inv g0 k gs \<longleftrightarrow>
     (case gs of (g, s) \<Rightarrow>
        AGRID g = AGRID g0 \<and> AGRIDCNT g = AGRIDCNT g0 \<and> FGCELL g = FGCELL g0 \<and>
        FGNDX g = FGNDX g0 \<and> length (AGRIDOFF g) = length (AGRIDOFF g0) \<and>
        s = sum_list (take k (AGRIDCNT g0)) \<and>
        (\<forall>c<k. AGRIDOFF g ! c = sum_list (take c (AGRIDCNT g0))))"

definition undef_inv :: "Grid \<Rightarrow> nat \<Rightarrow> Grid \<Rightarrow> bool" where
  "undef_inv g0 k g \<longleftrightarrow>
     AGRIDCNT g = AGRIDCNT g0 \<and> AGRIDOFF g = AGRIDOFF g0 \<and> FGCELL g = FGCELL g0 \<and>
     FGNDX g = FGNDX g0 \<and> length (AGRID g) = length (AGRID g0) \<and> k \<le> length (AGRID g) \<and>
     (\<forall>i<k. AGRID g ! i = GRID_UNDEF)"

text \<open>The slot of a bird in the sorted array.\<close>

definition slot :: "Grid \<Rightarrow> nat \<Rightarrow> nat" where
  "slot g n = AGRIDOFF g ! (FGCELL g ! n) + FGNDX g ! n"

definition scatter_inv :: "Grid \<Rightarrow> nat \<Rightarrow> Grid \<Rightarrow> bool" where
  "scatter_inv g0 k g \<longleftrightarrow>
     AGRIDCNT g = AGRIDCNT g0 \<and> AGRIDOFF g = AGRIDOFF g0 \<and> FGCELL g = FGCELL g0 \<and>
     FGNDX g = FGNDX g0 \<and> length (AGRID g) = length (AGRID g0) \<and>
     (\<forall>n<k. FGCELL g0 ! n \<noteq> GRID_UNDEF \<longrightarrow>
        slot g0 n < length (AGRID g) \<and> AGRID g ! slot g0 n = n) \<and>
     (\<forall>i<length (AGRID g). AGRID g ! i = AGRID g0 ! i \<or>
        (\<exists>n<k. FGCELL g0 ! n \<noteq> GRID_UNDEF \<and> AGRID g ! i = n))"

text \<open>What the count phase and the scan establish, and the scatter relies on.\<close>

definition layout :: "nat \<Rightarrow> nat \<Rightarrow> Grid \<Rightarrow> bool" where
  "layout N T g \<longleftrightarrow>
     count_inv N T N g \<and> (\<forall>c<T. AGRIDOFF g ! c = sum_list (take c (AGRIDCNT g)))"

text \<open>The state after \<open>PrefixSumGrid\<close>.\<close>

definition sorted_grid :: "nat \<Rightarrow> nat \<Rightarrow> Grid \<Rightarrow> bool" where
  "sorted_grid N T g \<longleftrightarrow>
     layout N T g \<and> N \<le> length (AGRID g) \<and>
     (\<forall>n<N. FGCELL g ! n \<noteq> GRID_UNDEF \<longrightarrow> slot g n < N \<and> AGRID g ! slot g n = n) \<and>
     (\<forall>i<N. AGRID g ! i = GRID_UNDEF \<or> (AGRID g ! i < N \<and> FGCELL g ! (AGRID g ! i) \<noteq> GRID_UNDEF))"

definition ex_accel :: Accel where
  "ex_accel = \<lparr> psmoothradius = Finite 1, sim_scale = Finite 1,
      gridDelta = Vec3F (Finite 1) (Finite 1) (Finite 1),
      gridMin = Vec3F (Finite 0) (Finite 0) (Finite 0),
      gridRes = Vec3I 4 3 3, gridScanMax = Vec3I 2 1 1, gridSrch = 2, gridTotal = 36,
      gridAdjCnt = 8, gridAdj = [0, 1, 4, 5, 12, 13, 16, 17] \<rparr>"

definition mk_bird :: "rat \<Rightarrow> rat \<Rightarrow> rat \<Rightarrow> Bird" where
  "mk_bird a b c = \<lparr> pos = Vec3F (Finite a) (Finite b) (Finite c), vel = Vec3F (Finite 1) (Finite 0) (Finite 0),
     ave_pos = vzero, ave_vel = vzero, near_j = 0, t_nbrs = 0, r_nbrs = 0, cluster_id = 0 \<rparr>"

definition ex_birds :: "Bird list" where
  "ex_birds = [mk_bird (3/2) (3/2) (3/2), mk_bird (1/2) 1 1, mk_bird (5/2) 1 1, mk_bird (6/5) (11/10) (19/10)]"

definition ex_grid0 :: Grid where
  "ex_grid0 = \<lparr> AGRID = [7, 7, 7, 7], AGRIDCNT = replicate 36 5, AGRIDOFF = replicate 36 5,
     FGCELL = [1, 1, 1, 1], FGNDX = [1, 1, 1, 1] \<rparr>"

definition ex_cnt :: "nat list" where
  "ex_cnt = replicate 17 0 @ [2, 1] @ replicate 17 0"

definition ex_grid1 :: Grid where
  "ex_grid1 = \<lparr> AGRID = [7, 7, 7, 7], AGRIDCNT = ex_cnt, AGRIDOFF = replicate 36 0,
     FGCELL = [17, GRID_UNDEF, 18, 17], FGNDX = [0, 0, 0, 1] \<rparr>"

definition ex_grid2 :: Grid where
  "ex_grid2 = \<lparr> AGRID = [0, 3, 2, GRID_UNDEF], AGRIDCNT = ex_cnt,
     AGRIDOFF = replicate 18 0 @ [2] @ replicate 17 3,
     FGCELL = [17, GRID_UNDEF, 18, 17], FGNDX = [0, 0, 0, 1] \<rparr>"

subsection \<open>Invariants of the bounded insertion list\<close>

text \<open>The capacity of the two arrays and the bound on \<open>sort_num\<close>.\<close>

definition sort_ok :: "int \<Rightarrow> FState \<Rightarrow> bool" where
  "sort_ok K st \<longleftrightarrow>
     length (sort_d_nbr st) = 16 \<and> length (sort_j_nbr st) = 16 \<and> sort_num st \<le> max 0 K"

text \<open>A step that keeps an invariant and never fails with a given error.\<close>

definition keeps :: "error \<Rightarrow> (FState \<Rightarrow> bool) \<Rightarrow> (FState \<Rightarrow> error + FState) \<Rightarrow> bool" where
  "keeps e I f \<longleftrightarrow> (\<forall>t. I t \<longrightarrow> f t \<noteq> Inl e \<and> (\<forall>t'. f t = Inr t' \<longrightarrow> I t'))"

definition same_sort :: "FState \<Rightarrow> FState \<Rightarrow> bool" where
  "same_sort st st' \<longleftrightarrow>
     sort_d_nbr st' = sort_d_nbr st \<and> sort_j_nbr st' = sort_j_nbr st \<and> sort_num st' = sort_num st"

subsection \<open>An example run of the neighbour search\<close>

definition ex_prm :: Params where
  "ex_prm = \<lparr> neighbors = 7, fovcos = Finite (- 10), cluster_threshold_dist = Finite 1 \<rparr>"

definition ex_accel2 :: Accel where
  "ex_accel2 = ex_accel\<lparr> psmoothradius := Finite 2 \<rparr>"

definition ex_nrm :: "Vec3F \<Rightarrow> Vec3F" where
  "ex_nrm v = v"

definition ex_d0 :: "flt list" where
  "ex_d0 = replicate 16 NaN"

definition ex_j0 :: "int list" where
  "ex_j0 = replicate 16 0"

subsection \<open>The retained list and the K closest candidates\<close>



text \<open>
  The fields of a bird that the scan of a window (lines 1103-1181) leaves alone: it
  writes \<open>cluster_id\<close> and \<open>r_nbrs\<close> only.
\<close>

definition static :: "Bird \<Rightarrow> Vec3F \<times> Vec3F \<times> Vec3F \<times> Vec3F \<times> int \<times> int" where
  "static b = (pos b, vel b, ave_pos b, ave_vel b, near_j b, t_nbrs b)"

definition same_geom :: "FState \<Rightarrow> FState \<Rightarrow> bool" where
  "same_geom st st' \<longleftrightarrow> map static (m_Birds st') = map static (m_Birds st)"






text \<open>The entries that the scan of a window reads, in the order of the scan.\<close>

definition window_entries :: "Accel \<Rightarrow> Grid \<Rightarrow> int \<Rightarrow> nat list" where
  "window_entries acc g gc =
     concat (map (\<lambda>c. bucket g (nat (gc + gridAdj acc ! c))) [0..<nat (gridAdjCnt acc)])"




subsection \<open>Aggregates of the retained list\<close>

text \<open>Two bird buffers that agree except on the fields of one bird.\<close>

definition same_except :: "nat \<Rightarrow> Bird list \<Rightarrow> Bird list \<Rightarrow> bool" where
  "same_except i bs bs' \<longleftrightarrow>
     length bs' = length bs \<and> map pos bs' = map pos bs \<and> map vel bs' = map vel bs \<and>
     (\<forall>k<length bs. k \<noteq> i \<longrightarrow> static (bs' ! k) = static (bs ! k))"




text \<open>Bird \<open>i\<close> after \<open>k\<close> rounds of the loop of lines 1184-1188.\<close>

definition agg_bird :: "FState \<Rightarrow> nat \<Rightarrow> nat \<Rightarrow> Bird" where
  "agg_bird sc i k =
     (m_Birds sc ! i)\<lparr>
        ave_pos := foldl vadd (ave_pos (m_Birds sc ! i))
                     (map (\<lambda>m. pos (m_Birds sc ! nat (sort_j_nbr sc ! m))) [0..<k]),
        ave_vel := foldl vadd (ave_vel (m_Birds sc ! i))
                     (map (\<lambda>m. vel (m_Birds sc ! nat (sort_j_nbr sc ! m))) [0..<k]) \<rparr>"




subsection \<open>The cluster tables\<close>

text \<open>
  The cluster tables are consistent: \<open>ids\<close> are the cluster ids of the birds, \<open>ca\<close> the
  member lists. A bird with an id is a member of the list of that id, the members of a
  list carry its id, and no list holds a bird twice.
\<close>

definition wf_part :: "int list \<Rightarrow> nat list list \<Rightarrow> int \<Rightarrow> bool" where
  "wf_part ids ca mx \<longleftrightarrow>
     mx = int (length ca) - 1 \<and>
     (\<forall>b<length ids. ids ! b = - 1 \<or>
        (0 \<le> ids ! b \<and> nat (ids ! b) < length ca \<and> b \<in> set (ca ! nat (ids ! b)))) \<and>
     (\<forall>c<length ca. distinct (ca ! c) \<and> (\<forall>m\<in>set (ca ! c). m < length ids \<and> ids ! m = int c))"

text \<open>The ids after the cluster \<open>f\<close> was merged into the cluster \<open>t\<close>.\<close>

definition retag :: "int \<Rightarrow> int \<Rightarrow> int list \<Rightarrow> int list" where
  "retag f t ids = map (\<lambda>x. if x = f then t else x) ids"

text \<open>
  One change of the cluster tables \<open>(ids, ca, mx)\<close>, for a set \<open>G\<close> of pairs of birds that
  may be put together: a bird without an id opens a cluster (lines 1077-1085), a bird
  without an id joins the cluster of a bird paired with it (lines 1125-1128), or the
  cluster of \<open>j\<close> is merged into the cluster of \<open>i\<close> (lines 1129-1142).
\<close>

definition step_new :: "int list \<times> nat list list \<times> int \<Rightarrow> int list \<times> nat list list \<times> int \<Rightarrow> bool" where
  "step_new v v' \<longleftrightarrow>
     (case v of (ids, ca, mx) \<Rightarrow>
        \<exists>i. i < length ids \<and> ids ! i = - 1 \<and> v' = (ids[i := mx + 1], ca @ [[i]], mx + 1))"

definition step_join ::
  "(nat \<times> nat) set \<Rightarrow> int list \<times> nat list list \<times> int \<Rightarrow> int list \<times> nat list list \<times> int \<Rightarrow> bool" where
  "step_join G v v' \<longleftrightarrow>
     (case v of (ids, ca, mx) \<Rightarrow>
        \<exists>i j. (i, j) \<in> G \<and> i < length ids \<and> j < length ids \<and> ids ! i \<noteq> - 1 \<and> ids ! j = - 1 \<and>
          v' = (ids[j := ids ! i], ca[nat (ids ! i) := ca ! nat (ids ! i) @ [j]], mx))"

definition step_merge ::
  "(nat \<times> nat) set \<Rightarrow> int list \<times> nat list list \<times> int \<Rightarrow> int list \<times> nat list list \<times> int \<Rightarrow> bool" where
  "step_merge G v v' \<longleftrightarrow>
     (case v of (ids, ca, mx) \<Rightarrow>
        \<exists>i j. (i, j) \<in> G \<and> i < length ids \<and> j < length ids \<and> ids ! i \<noteq> - 1 \<and> ids ! j \<noteq> - 1 \<and>
          ids ! j \<noteq> ids ! i \<and>
          v' = (retag (ids ! j) (ids ! i) ids,
                (ca[nat (ids ! i) := ca ! nat (ids ! i) @ ca ! nat (ids ! j)])[nat (ids ! j) := []], mx))"

definition cstep ::
  "(nat \<times> nat) set \<Rightarrow> int list \<times> nat list list \<times> int \<Rightarrow> int list \<times> nat list list \<times> int \<Rightarrow> bool" where
  "cstep G v v' \<longleftrightarrow> step_new v v' \<or> step_join G v v' \<or> step_merge G v v'"

text \<open>Two birds are linked when they carry the same cluster id.\<close>

definition linked :: "int list \<Rightarrow> nat \<Rightarrow> nat \<Rightarrow> bool" where
  "linked ids a b \<longleftrightarrow> a < length ids \<and> b < length ids \<and> ids ! a = ids ! b \<and> ids ! a \<noteq> - 1"

text \<open>The birds connected by a path of pairs of \<open>G\<close>, in either direction.\<close>

definition conn :: "(nat \<times> nat) set \<Rightarrow> (nat \<times> nat) set" where
  "conn G = (G \<union> G\<inverse>)\<^sup>*"

text \<open>What holds of the cluster tables throughout the clustering pass.\<close>

definition cinv :: "(nat \<times> nat) set \<Rightarrow> nat \<Rightarrow> int list \<times> nat list list \<times> int \<Rightarrow> bool" where
  "cinv G N v \<longleftrightarrow>
     (case v of (ids, ca, mx) \<Rightarrow>
        length ids = N \<and> wf_part ids ca mx \<and> (\<forall>a b. linked ids a b \<longrightarrow> (a, b) \<in> conn G))"

text \<open>
  What a change keeps: linked birds stay linked (and so a bird with an id, which is
  linked to itself, keeps having one).
\<close>

definition grows :: "int list \<times> nat list list \<times> int \<Rightarrow> int list \<times> nat list list \<times> int \<Rightarrow> bool" where
  "grows v v' \<longleftrightarrow> (\<forall>a b. linked (fst v) a b \<longrightarrow> linked (fst v') a b)"

text \<open>The cluster tables of a state.\<close>

definition cview :: "FState \<Rightarrow> int list \<times> nat list list \<times> int" where
  "cview st = (map cluster_id (m_Birds st), cluster_assignment st, max_cluster_id st)"

text \<open>
  The proximity graph of the clustering threshold: the pairs of birds whose squared
  distance, as line 1122 computes it, is below the squared threshold of line 1124.
\<close>

definition close_pair :: "Params \<Rightarrow> Bird list \<Rightarrow> nat \<Rightarrow> nat \<Rightarrow> bool" where
  "close_pair prm bs i j \<longleftrightarrow>
     flt_less (dist_sq (pos (bs ! i)) (pos (bs ! j)))
       (fmul (cluster_threshold_dist prm) (cluster_threshold_dist prm))"

definition close_graph :: "Params \<Rightarrow> Bird list \<Rightarrow> (nat \<times> nat) set" where
  "close_graph prm bs = {(i, j). i < length bs \<and> j < length bs \<and> close_pair prm bs i j}"

definition sinv :: "Params \<Rightarrow> Bird list \<Rightarrow> FState \<Rightarrow> bool" where
  "sinv prm bs st \<longleftrightarrow>
     map pos (m_Birds st) = map pos bs \<and> cinv (close_graph prm bs) (length bs) (cview st)"

definition sgrows :: "FState \<Rightarrow> FState \<Rightarrow> bool" where
  "sgrows st st' \<longleftrightarrow> grows (cview st) (cview st')"

text \<open>The cluster ids of the birds of a state.\<close>

definition cids :: "FState \<Rightarrow> int list" where
  "cids st = map cluster_id (m_Birds st)"

section \<open>Proofs\<close>

subsection \<open>Loops\<close>

lemma efold_append:
  "efold f (xs @ ys) s = (case efold f xs s of Inl e \<Rightarrow> Inl e | Inr s' \<Rightarrow> efold f ys s')"
  by (induction xs arbitrary: s) (auto split: sum.splits)

lemma efold_upt_Suc:
  "efold f [0..<Suc n] s = (case efold f [0..<n] s of Inl e \<Rightarrow> Inl e | Inr s' \<Rightarrow> f n s')"
  by (simp add: efold_append split: sum.splits)

lemma efold_upt_induct:
  assumes "efold f [0..<n] s = Inr s'"
    and "P 0 s"
    and "\<And>k t t'. k < n \<Longrightarrow> P k t \<Longrightarrow> f k t = Inr t' \<Longrightarrow> P (Suc k) t'"
  shows "P n s'"
  using assms
proof (induction n arbitrary: s')
  case 0
  then show ?case by simp
next
  case (Suc n)
  from Suc.prems(1) obtain t where t: "efold f [0..<n] s = Inr t" and ft: "f n t = Inr s'"
    by (auto simp: efold_upt_Suc simp del: upt_Suc split: sum.splits)
  have "P n t"
    by (rule Suc.IH[OF t Suc.prems(2)]) (use Suc.prems(3) in auto)
  then show ?case using Suc.prems(3)[of n t s'] ft by simp
qed

lemma efold_upt_total:
  assumes "P 0 s"
    and "\<And>k t. k < n \<Longrightarrow> P k t \<Longrightarrow> \<exists>t'. f k t = Inr t' \<and> P (Suc k) t'"
  shows "\<exists>s'. efold f [0..<n] s = Inr s' \<and> P n s'"
  using assms
proof (induction n)
  case 0
  then show ?case by simp
next
  case (Suc n)
  have "\<exists>t. efold f [0..<n] s = Inr t \<and> P n t"
    by (rule Suc.IH[OF Suc.prems(1)]) (use Suc.prems(2) in auto)
  then obtain t where t: "efold f [0..<n] s = Inr t" "P n t" by blast
  from Suc.prems(2)[of n t] t(2) obtain t' where "f n t = Inr t'" "P (Suc n) t'" by auto
  then show ?case using t(1) by (simp add: efold_upt_Suc del: upt_Suc)
qed

subsection \<open>The counting sort\<close>

lemma count_inv_init:
  "count_inv N T 0 (g0\<lparr> AGRIDCNT := replicate T 0, AGRIDOFF := replicate T 0,
                         FGCELL := replicate N 0, FGNDX := replicate N 0 \<rparr>)"
  by (simp add: count_inv_def bij_betw_def)

lemma count_inv_undef:
  assumes inv: "count_inv N T k g" and k: "k < N" and T: "T \<le> GRID_UNDEF"
  shows "count_inv N T (Suc k) (g\<lparr> FGCELL := (FGCELL g)[k := GRID_UNDEF] \<rparr>)"
proof -
  let ?g = "g\<lparr> FGCELL := (FGCELL g)[k := GRID_UNDEF] \<rparr>"
  have len: "length (FGCELL g) = N" using inv by (simp add: count_inv_def)
  have sets: "{n. n < Suc k \<and> FGCELL ?g ! n = c} = {n. n < k \<and> FGCELL g ! n = c}" if "c < T" for c
    using that T k len by (auto simp: nth_list_update less_Suc_eq)
  show ?thesis
    using inv k unfolding count_inv_def
    apply (intro conjI)
         apply simp_all
     apply (auto simp: nth_list_update less_Suc_eq)[1]
    using sets apply simp
    done
qed

lemma count_inv_cell:
  assumes inv: "count_inv N T k g" and k: "k < N" and c0: "c0 < T" and T: "T \<le> GRID_UNDEF"
  shows "count_inv N T (Suc k)
           (g\<lparr> FGCELL := (FGCELL g)[k := c0],
                FGNDX := (FGNDX g)[k := AGRIDCNT g ! c0],
                AGRIDCNT := (AGRIDCNT g)[c0 := AGRIDCNT g ! c0 + 1] \<rparr>)"
proof -
  let ?g = "g\<lparr> FGCELL := (FGCELL g)[k := c0],
                FGNDX := (FGNDX g)[k := AGRIDCNT g ! c0],
                AGRIDCNT := (AGRIDCNT g)[c0 := AGRIDCNT g ! c0 + 1] \<rparr>"
  have len: "length (FGCELL g) = N" "length (FGNDX g) = N" "length (AGRIDCNT g) = T"
    using inv by (simp_all add: count_inv_def)
  have bij: "bij_betw (\<lambda>n. FGNDX g ! n) {n. n < k \<and> FGCELL g ! n = c} {0..<AGRIDCNT g ! c}"
    if "c < T" for c using inv that by (simp add: count_inv_def)
  have "bij_betw (\<lambda>n. FGNDX ?g ! n) {n. n < Suc k \<and> FGCELL ?g ! n = c} {0..<AGRIDCNT ?g ! c}"
    if c: "c < T" for c
  proof (cases "c = c0")
    case False
    have s: "{n. n < Suc k \<and> FGCELL ?g ! n = c} = {n. n < k \<and> FGCELL g ! n = c}"
      using False k len by (auto simp: nth_list_update less_Suc_eq)
    have "bij_betw (\<lambda>n. FGNDX ?g ! n) {n. n < k \<and> FGCELL g ! n = c} {0..<AGRIDCNT g ! c}"
      by (rule iffD1[OF bij_betw_cong bij[OF c]]) (use k len in \<open>auto simp: nth_list_update\<close>)
    then show ?thesis using s False c len by simp
  next
    case True
    let ?A = "{n. n < k \<and> FGCELL g ! n = c0}"
    have s: "{n. n < Suc k \<and> FGCELL ?g ! n = c} = ?A \<union> {k}"
      using True k len by (auto simp: nth_list_update less_Suc_eq)
    have r: "{0..<AGRIDCNT ?g ! c} = {0..<AGRIDCNT g ! c0} \<union> {FGNDX ?g ! k}"
      using True c len k by auto
    have b: "bij_betw (\<lambda>n. FGNDX ?g ! n) ?A {0..<AGRIDCNT g ! c0}"
      by (rule iffD1[OF bij_betw_cong bij[OF c0]]) (use k len in \<open>auto simp: nth_list_update\<close>)
    have "bij_betw (\<lambda>n. FGNDX ?g ! n) (?A \<union> {k}) ({0..<AGRIDCNT g ! c0} \<union> {FGNDX ?g ! k})"
      by (rule notIn_Un_bij_betw[OF _ _ b]) (use k len in auto)
    then show ?thesis unfolding s r .
  qed
  moreover have "\<forall>n<Suc k. FGCELL ?g ! n = GRID_UNDEF \<or> FGCELL ?g ! n < T"
    using inv k c0 len by (auto simp: count_inv_def nth_list_update less_Suc_eq)
  ultimately show ?thesis
    using inv unfolding count_inv_def by simp
qed

lemma insert_bird_inv:
  assumes "count_inv N T k g" "k < N" "T \<le> GRID_UNDEF" "insert_bird acc birds k g = Inr g'"
  shows "count_inv N T (Suc k) g' \<and> AGRID g' = AGRID g"
proof -
  have lenT: "length (AGRIDCNT g) = T" using assms(1) by (simp add: count_inv_def)
  show ?thesis
    using assms(4) count_inv_undef[OF assms(1,2,3)] count_inv_cell[OF assms(1,2) _ assms(3)] lenT
    by (auto simp: insert_bird_def Let_def split: if_splits sum.splits)
qed

lemma InsertIntoGrid_inv:
  assumes "InsertIntoGrid acc birds g0 = Inr g1" "nat (gridTotal acc) \<le> GRID_UNDEF"
  shows "count_inv (length birds) (nat (gridTotal acc)) (length birds) g1 \<and> AGRID g1 = AGRID g0"
proof -
  let ?N = "length birds" and ?T = "nat (gridTotal acc)"
  let ?g = "g0\<lparr> AGRIDCNT := replicate ?T 0, AGRIDOFF := replicate ?T 0,
                   FGCELL := replicate ?N 0, FGNDX := replicate ?N 0 \<rparr>"
  have e: "efold (insert_bird acc birds) [0..<?N] ?g = Inr g1"
    using assms(1) by (simp add: InsertIntoGrid_def Let_def)
  show ?thesis
  proof (rule efold_upt_induct[OF e, where P = "\<lambda>k g. count_inv ?N ?T k g \<and> AGRID g = AGRID g0"])
    show "count_inv ?N ?T 0 ?g \<and> AGRID ?g = AGRID g0"
      using count_inv_init[of ?N ?T g0] by simp
  next
    fix k t t'
    assume "k < ?N" "count_inv ?N ?T k t \<and> AGRID t = AGRID g0" "insert_bird acc birds k t = Inr t'"
    then show "count_inv ?N ?T (Suc k) t' \<and> AGRID t' = AGRID g0"
      using insert_bird_inv[of ?N ?T k t acc birds t'] assms(2) by simp
  qed
qed

lemma prefix_step_inv:
  assumes "scan_inv g0 k gs" "prefix_step k gs = Inr gs'"
  shows "scan_inv g0 (Suc k) gs'"
proof -
  obtain g s where gs: "gs = (g, s)" by (cases gs)
  from assms(2) gs have k: "k < length (AGRIDOFF g)" "k < length (AGRIDCNT g)"
    and gs': "gs' = (g\<lparr> AGRIDOFF := (AGRIDOFF g)[k := s] \<rparr>, s + AGRIDCNT g ! k)"
    by (auto simp: prefix_step_def split: if_splits)
  from assms(1) gs have cnt: "AGRIDCNT g = AGRIDCNT g0" by (simp add: scan_inv_def)
  have "sum_list (take (Suc k) (AGRIDCNT g0)) = sum_list (take k (AGRIDCNT g0)) + AGRIDCNT g0 ! k"
    using k(2) cnt by (simp add: take_Suc_conv_app_nth)
  then show ?thesis
    using assms(1) gs gs' k by (auto simp: scan_inv_def nth_list_update less_Suc_eq)
qed

lemma scan_loop_inv:
  assumes "efold prefix_step [0..<T] (g0, 0) = Inr gs"
  shows "scan_inv g0 T gs"
proof (rule efold_upt_induct[OF assms, where P = "scan_inv g0"])
  show "scan_inv g0 0 (g0, 0)" by (simp add: scan_inv_def)
next
  fix k t t'
  assume "k < T" "scan_inv g0 k t" "prefix_step k t = Inr t'"
  then show "scan_inv g0 (Suc k) t'" by (simp add: prefix_step_inv)
qed

lemma undef_loop_inv:
  assumes "efold undef_step [0..<N] g0 = Inr g"
  shows "undef_inv g0 N g"
proof (rule efold_upt_induct[OF assms, where P = "undef_inv g0"])
  show "undef_inv g0 0 g0" by (simp add: undef_inv_def)
next
  fix k t t'
  assume "k < N" "undef_inv g0 k t" "undef_step k t = Inr t'"
  then show "undef_inv g0 (Suc k) t'"
    by (auto simp: undef_inv_def undef_step_def nth_list_update less_Suc_eq split: if_splits)
qed

lemma scatter_step_inv:
  assumes inv: "scatter_inv g0 k g" and st: "scatter_step k g = Inr g'"
    and inj: "\<And>n. n < k \<Longrightarrow> FGCELL g0 ! n \<noteq> GRID_UNDEF \<Longrightarrow> FGCELL g0 ! k \<noteq> GRID_UNDEF
               \<Longrightarrow> slot g0 n \<noteq> slot g0 k"
  shows "scatter_inv g0 (Suc k) g'"
proof (cases "FGCELL g0 ! k = GRID_UNDEF")
  case True
  then have "g' = g" using st inv by (auto simp: scatter_step_def scatter_inv_def split: if_splits)
  then show ?thesis using inv True
    by (auto simp: scatter_inv_def less_Suc_eq)
next
  case False
  have eqs: "AGRIDCNT g = AGRIDCNT g0" "AGRIDOFF g = AGRIDOFF g0" "FGCELL g = FGCELL g0"
    "FGNDX g = FGNDX g0" using inv by (simp_all add: scatter_inv_def)
  have sl: "slot g0 k < length (AGRID g)" and g': "g' = g\<lparr> AGRID := (AGRID g)[slot g0 k := k] \<rparr>"
    using st False eqs by (auto simp: scatter_step_def slot_def Let_def split: if_splits)
  have a: "\<forall>n<Suc k. FGCELL g0 ! n \<noteq> GRID_UNDEF \<longrightarrow>
        slot g0 n < length (AGRID g') \<and> AGRID g' ! slot g0 n = n"
  proof (intro allI impI)
    fix n assume n: "n < Suc k" "FGCELL g0 ! n \<noteq> GRID_UNDEF"
    show "slot g0 n < length (AGRID g') \<and> AGRID g' ! slot g0 n = n"
    proof (cases "n = k")
      case True
      then show ?thesis using sl unfolding g' by simp
    next
      case ne: False
      then have nk: "n < k" using n(1) by simp
      then have "slot g0 n \<noteq> slot g0 k" using inj n(2) False by blast
      moreover have "slot g0 n < length (AGRID g) \<and> AGRID g ! slot g0 n = n"
        using inv nk n(2) unfolding scatter_inv_def by metis
      ultimately show ?thesis unfolding g' by simp
    qed
  qed
  have b: "\<forall>i<length (AGRID g'). AGRID g' ! i = AGRID g0 ! i \<or>
        (\<exists>n<Suc k. FGCELL g0 ! n \<noteq> GRID_UNDEF \<and> AGRID g' ! i = n)"
  proof (intro allI impI)
    fix i assume i: "i < length (AGRID g')"
    show "AGRID g' ! i = AGRID g0 ! i \<or> (\<exists>n<Suc k. FGCELL g0 ! n \<noteq> GRID_UNDEF \<and> AGRID g' ! i = n)"
    proof (cases "i = slot g0 k")
      case True
      then show ?thesis using sl False unfolding g' by auto
    next
      case ne: False
      then have "AGRID g' ! i = AGRID g ! i" unfolding g' by simp
      moreover have "AGRID g ! i = AGRID g0 ! i \<or> (\<exists>n<k. FGCELL g0 ! n \<noteq> GRID_UNDEF \<and> AGRID g ! i = n)"
        using inv i unfolding g' scatter_inv_def by simp
      ultimately show ?thesis by (auto simp: less_Suc_eq)
    qed
  qed
  show ?thesis
    unfolding scatter_inv_def using a b eqs inv unfolding g' by (simp add: scatter_inv_def)
qed

lemma sum_list_take_mono:
  fixes xs :: "nat list"
  shows "i \<le> j \<Longrightarrow> sum_list (take i xs) \<le> sum_list (take j xs)"
proof -
  assume "i \<le> j"
  then obtain k where j: "j = i + k" using le_Suc_ex by blast
  show ?thesis unfolding j by (simp add: take_add)
qed

lemma layout_rank:
  assumes "layout N T g" "n < N" "FGCELL g ! n < T"
  shows "FGNDX g ! n < AGRIDCNT g ! (FGCELL g ! n)"
proof -
  let ?c = "FGCELL g ! n"
  have "bij_betw (\<lambda>n. FGNDX g ! n) {m. m < N \<and> FGCELL g ! m = ?c} {0..<AGRIDCNT g ! ?c}"
    using assms by (simp add: layout_def count_inv_def)
  then have "FGNDX g ! n \<in> {0..<AGRIDCNT g ! ?c}"
    using assms(2) by (auto simp: bij_betw_def)
  then show ?thesis by simp
qed

lemma layout_next:
  assumes "layout N T g" "c < d" "d < T"
  shows "AGRIDOFF g ! c + AGRIDCNT g ! c \<le> AGRIDOFF g ! d"
proof -
  have len: "length (AGRIDCNT g) = T" using assms(1) by (simp add: layout_def count_inv_def)
  have "AGRIDOFF g ! c + AGRIDCNT g ! c = sum_list (take (Suc c) (AGRIDCNT g))"
    using assms len by (simp add: layout_def take_Suc_conv_app_nth)
  also have "\<dots> \<le> sum_list (take d (AGRIDCNT g))"
    using assms(2) by (intro sum_list_take_mono) simp
  also have "\<dots> = AGRIDOFF g ! d" using assms by (simp add: layout_def)
  finally show ?thesis .
qed

lemma layout_slot_inj:
  assumes lay: "layout N T g" and n: "n < N" "FGCELL g ! n < T" and m: "m < N" "FGCELL g ! m < T"
    and eq: "slot g n = slot g m"
  shows "n = m"
proof -
  let ?c = "FGCELL g ! n" and ?d = "FGCELL g ! m"
  have rn: "FGNDX g ! n < AGRIDCNT g ! ?c" by (rule layout_rank[OF lay n])
  have rm: "FGNDX g ! m < AGRIDCNT g ! ?d" by (rule layout_rank[OF lay m])
  have cd: "?c = ?d"
  proof (rule ccontr)
    assume "?c \<noteq> ?d"
    then consider "?c < ?d" | "?d < ?c" by linarith
    then show False
    proof cases
      case 1
      from layout_next[OF lay 1 m(2)] rn rm eq show False by (simp add: slot_def)
    next
      case 2
      from layout_next[OF lay 2 n(2)] rn rm eq show False by (simp add: slot_def)
    qed
  qed
  have "bij_betw (\<lambda>n. FGNDX g ! n) {k. k < N \<and> FGCELL g ! k = ?c} {0..<AGRIDCNT g ! ?c}"
    using lay n by (simp add: layout_def count_inv_def)
  then have "inj_on (\<lambda>n. FGNDX g ! n) {k. k < N \<and> FGCELL g ! k = ?c}"
    by (simp add: bij_betw_def)
  moreover have "FGNDX g ! n = FGNDX g ! m" using eq cd by (simp add: slot_def)
  ultimately show ?thesis using n m cd by (auto simp: inj_on_def)
qed

lemma layout_defined:
  assumes "layout N T g" "T \<le> GRID_UNDEF" "n < N"
  shows "FGCELL g ! n \<noteq> GRID_UNDEF \<longleftrightarrow> FGCELL g ! n < T"
  using assms by (auto simp: layout_def count_inv_def)

lemma layout_card_cell:
  assumes "layout N T g" "c < T"
  shows "card {n. n < N \<and> FGCELL g ! n = c} = AGRIDCNT g ! c"
proof -
  have "bij_betw (\<lambda>n. FGNDX g ! n) {n. n < N \<and> FGCELL g ! n = c} {0..<AGRIDCNT g ! c}"
    using assms by (simp add: layout_def count_inv_def)
  from bij_betw_same_card[OF this] show ?thesis by simp
qed

lemma layout_total:
  assumes lay: "layout N T g" and T: "T \<le> GRID_UNDEF"
  shows "sum_list (AGRIDCNT g) = card {n. n < N \<and> FGCELL g ! n \<noteq> GRID_UNDEF}"
proof -
  have len: "length (AGRIDCNT g) = T" using lay by (simp add: layout_def count_inv_def)
  have "{n. n < N \<and> FGCELL g ! n \<noteq> GRID_UNDEF} = (\<Union>c\<in>{0..<T}. {n. n < N \<and> FGCELL g ! n = c})"
    using layout_defined[OF lay T] T by auto
  also have "card \<dots> = (\<Sum>c\<in>{0..<T}. card {n. n < N \<and> FGCELL g ! n = c})"
    by (rule card_UN_disjoint) auto
  also have "\<dots> = (\<Sum>c\<in>{0..<T}. AGRIDCNT g ! c)"
    by (rule sum.cong) (use layout_card_cell[OF lay] in auto)
  also have "\<dots> = sum_list (AGRIDCNT g)"
    using len by (simp add: sum_list_sum_nth)
  finally show ?thesis by simp
qed

lemma layout_slot_bound:
  assumes lay: "layout N T g" and T: "T \<le> GRID_UNDEF" and n: "n < N" "FGCELL g ! n < T"
  shows "slot g n < card {n. n < N \<and> FGCELL g ! n \<noteq> GRID_UNDEF}"
proof -
  let ?c = "FGCELL g ! n"
  have len: "length (AGRIDCNT g) = T" using lay by (simp add: layout_def count_inv_def)
  have "slot g n < AGRIDOFF g ! ?c + AGRIDCNT g ! ?c"
    using layout_rank[OF lay n] by (simp add: slot_def)
  also have "\<dots> = sum_list (take (Suc ?c) (AGRIDCNT g))"
    using lay n len by (simp add: layout_def take_Suc_conv_app_nth)
  also have "\<dots> \<le> sum_list (take T (AGRIDCNT g))"
    using n(2) by (intro sum_list_take_mono) simp
  also have "\<dots> = sum_list (AGRIDCNT g)" using len by simp
  finally show ?thesis using layout_total[OF lay T] by simp
qed

lemma PrefixSumGrid_sorted:
  assumes T: "T \<le> GRID_UNDEF" and Tdef: "T = nat (gridTotal acc)"
    and inv: "count_inv N T N g1" and ps: "PrefixSumGrid acc N g1 = Inr g2"
  shows "sorted_grid N T g2 \<and> FGCELL g2 = FGCELL g1 \<and> FGNDX g2 = FGNDX g1 \<and> AGRIDCNT g2 = AGRIDCNT g1"
proof -
  from ps Tdef obtain ga s gb where
    a: "efold prefix_step [0..<T] (g1, 0) = Inr (ga, s)"
    and b: "efold undef_step [0..<N] ga = Inr gb"
    and c: "efold scatter_step [0..<N] gb = Inr g2"
    by (auto simp: PrefixSumGrid_def Let_def split: sum.splits prod.splits)
  have sa: "scan_inv g1 T (ga, s)" by (rule scan_loop_inv[OF a])
  have sb: "undef_inv ga N gb" by (rule undef_loop_inv[OF b])
  have eqb: "AGRIDCNT gb = AGRIDCNT g1" "FGCELL gb = FGCELL g1" "FGNDX gb = FGNDX g1"
    "length (AGRIDOFF gb) = length (AGRIDOFF g1)"
    "\<forall>c<T. AGRIDOFF gb ! c = sum_list (take c (AGRIDCNT g1))"
    using sa sb by (simp_all add: scan_inv_def undef_inv_def)
  have layb: "layout N T gb"
    using inv eqb unfolding layout_def count_inv_def by simp
  have sc: "scatter_inv gb N g2"
  proof (rule efold_upt_induct[OF c, where P = "scatter_inv gb"])
    show "scatter_inv gb 0 gb" by (simp add: scatter_inv_def)
  next
    fix k t t'
    assume k: "k < N" and t: "scatter_inv gb k t" and st: "scatter_step k t = Inr t'"
    show "scatter_inv gb (Suc k) t'"
    proof (rule scatter_step_inv[OF t st])
      fix n assume n: "n < k" "FGCELL gb ! n \<noteq> GRID_UNDEF" "FGCELL gb ! k \<noteq> GRID_UNDEF"
      have "n < N" using n(1) k by simp
      then show "slot gb n \<noteq> slot gb k"
        using layout_slot_inj[OF layb, of n k] layout_defined[OF layb T] n k by auto
    qed
  qed
  have eq2: "AGRIDCNT g2 = AGRIDCNT gb" "AGRIDOFF g2 = AGRIDOFF gb" "FGCELL g2 = FGCELL gb"
    "FGNDX g2 = FGNDX gb" "length (AGRID g2) = length (AGRID gb)"
    using sc by (simp_all add: scatter_inv_def)
  have lay2: "layout N T g2"
    using layb eq2 unfolding layout_def count_inv_def by simp
  have sl: "slot g2 = slot gb" using eq2 by (auto simp: slot_def fun_eq_iff)
  have N: "N \<le> length (AGRID g2)" using sb eq2 by (simp add: undef_inv_def)
  have p1: "\<forall>n<N. FGCELL g2 ! n \<noteq> GRID_UNDEF \<longrightarrow> slot g2 n < N \<and> AGRID g2 ! slot g2 n = n"
  proof (intro allI impI)
    fix n assume n: "n < N" "FGCELL g2 ! n \<noteq> GRID_UNDEF"
    have "slot g2 n < card {n. n < N \<and> FGCELL g2 ! n \<noteq> GRID_UNDEF}"
      using layout_slot_bound[OF lay2 T n(1)] layout_defined[OF lay2 T n(1)] n(2) by simp
    also have "\<dots> \<le> card {n. n < N}" by (rule card_mono) auto
    finally have "slot g2 n < N" by simp
    moreover have "AGRID g2 ! slot gb n = n"
      using sc n eq2 unfolding scatter_inv_def by metis
    ultimately show "slot g2 n < N \<and> AGRID g2 ! slot g2 n = n" using sl by simp
  qed
  have p2: "\<forall>i<N. AGRID g2 ! i = GRID_UNDEF \<or> (AGRID g2 ! i < N \<and> FGCELL g2 ! (AGRID g2 ! i) \<noteq> GRID_UNDEF)"
  proof (intro allI impI)
    fix i assume i: "i < N"
    then have il: "i < length (AGRID g2)" using N by simp
    have "AGRID gb ! i = GRID_UNDEF" using sb i by (simp add: undef_inv_def)
    moreover have "AGRID g2 ! i = AGRID gb ! i \<or> (\<exists>n<N. FGCELL gb ! n \<noteq> GRID_UNDEF \<and> AGRID g2 ! i = n)"
      using sc il unfolding scatter_inv_def by metis
    ultimately show "AGRID g2 ! i = GRID_UNDEF \<or> (AGRID g2 ! i < N \<and> FGCELL g2 ! (AGRID g2 ! i) \<noteq> GRID_UNDEF)"
      using eq2 by auto
  qed
  show ?thesis
    unfolding sorted_grid_def using lay2 N p1 p2 eq2 eqb by simp
qed

lemma sorted_grid_bucket:
  assumes sg: "sorted_grid N T g" and T: "T \<le> GRID_UNDEF" and c: "c < T"
  shows "set (bucket g c) = {n. n < N \<and> FGCELL g ! n = c} \<and> distinct (bucket g c)"
proof -
  let ?A = "{n. n < N \<and> FGCELL g ! n = c}"
  let ?o = "AGRIDOFF g ! c" and ?k = "AGRIDCNT g ! c"
  have lay: "layout N T g" using sg by (simp add: sorted_grid_def)
  have bij: "bij_betw (\<lambda>n. FGNDX g ! n) ?A {0..<?k}"
    using lay c by (simp add: layout_def count_inv_def)
  have cdef: "c \<noteq> GRID_UNDEF" using c T by simp
  have at: "AGRID g ! (?o + FGNDX g ! n) = n" if "n \<in> ?A" for n
    using sg that cdef by (auto simp: sorted_grid_def slot_def)
  have ex: "\<exists>n\<in>?A. FGNDX g ! n = r" if "r < ?k" for r
  proof -
    have "r \<in> (\<lambda>n. FGNDX g ! n) ` ?A" using bij that by (simp add: bij_betw_def)
    then show ?thesis by auto
  qed
  have sub: "set (bucket g c) \<subseteq> ?A"
  proof
    fix x assume "x \<in> set (bucket g c)"
    then obtain r where r: "r < ?k" "x = AGRID g ! (?o + r)"
      by (auto simp: bucket_def) (metis add.commute le_Suc_ex nat_add_left_cancel_less)
    from ex[OF r(1)] obtain n where "n \<in> ?A" "FGNDX g ! n = r" by blast
    then show "x \<in> ?A" using at[of n] r(2) by simp
  qed
  have sup: "?A \<subseteq> set (bucket g c)"
  proof
    fix n assume n: "n \<in> ?A"
    have "FGNDX g ! n \<in> {0..<?k}" using bij n by (auto simp: bij_betw_def)
    then have "?o + FGNDX g ! n \<in> set [?o..<?o + ?k]" by simp
    then have "AGRID g ! (?o + FGNDX g ! n) \<in> set (bucket g c)"
      unfolding bucket_def by (simp only: set_map image_eqI)
    then show "n \<in> set (bucket g c)" using at[OF n] by simp
  qed
  have inj: "inj_on (\<lambda>k. AGRID g ! k) (set [?o..<?o + ?k])"
  proof (rule inj_onI)
    fix a b assume a: "a \<in> set [?o..<?o + ?k]" and b: "b \<in> set [?o..<?o + ?k]"
      and eq: "AGRID g ! a = AGRID g ! b"
    from a obtain ra where ra: "ra < ?k" "a = ?o + ra"
      by simp (metis add.commute le_Suc_ex nat_add_left_cancel_less)
    from b obtain rb where rb: "rb < ?k" "b = ?o + rb"
      by simp (metis add.commute le_Suc_ex nat_add_left_cancel_less)
    from ex[OF ra(1)] obtain n where n: "n \<in> ?A" "FGNDX g ! n = ra" by blast
    from ex[OF rb(1)] obtain m where m: "m \<in> ?A" "FGNDX g ! m = rb" by blast
    have "n = m" using at[OF n(1)] at[OF m(1)] n(2) m(2) ra(2) rb(2) eq by simp
    then show "a = b" using n m ra rb by simp
  qed
  have "distinct (bucket g c)"
    unfolding bucket_def by (simp add: distinct_map inj del: set_upt)
  then show ?thesis using sub sup by blast
qed

lemma INT_MAX_GRID_UNDEF: "t \<le> INT_MAX \<Longrightarrow> nat t \<le> GRID_UNDEF"
  by (simp add: INT_MAX_def GRID_UNDEF_def)

lemma grid_pipeline:
  assumes "gridTotal acc \<le> INT_MAX"
    and "InsertIntoGrid acc birds g0 = Inr g1"
    and "PrefixSumGrid acc (length birds) g1 = Inr g2"
  shows "sorted_grid (length birds) (nat (gridTotal acc)) g2 \<and> FGCELL g2 = FGCELL g1"
  using PrefixSumGrid_sorted[OF INT_MAX_GRID_UNDEF[OF assms(1)] refl _ assms(3)]
    InsertIntoGrid_inv[OF assms(2) INT_MAX_GRID_UNDEF[OF assms(1)]] by simp

text \<open>
  Claim C1. After the count phase (\<open>InsertIntoGrid\<close>) and the scan and scatter
  (\<open>PrefixSumGrid\<close>) have run, the bucket of every cell \<open>c\<close>, that is the slice of the
  sorted array from \<open>offset[c]\<close> to \<open>offset[c] + count[c]\<close>, holds exactly the birds whose
  cell is \<open>c\<close>, each of them once.
\<close>

theorem C1_bucket_exact:
  assumes "gridTotal acc \<le> INT_MAX"
    and "InsertIntoGrid acc birds g0 = Inr g1"
    and "PrefixSumGrid acc (length birds) g1 = Inr g2"
    and "c < nat (gridTotal acc)"
  shows "set (bucket g2 c) = {n. n < length birds \<and> FGCELL g2 ! n = c} \<and> distinct (bucket g2 c)"
proof -
  have "sorted_grid (length birds) (nat (gridTotal acc)) g2"
    using grid_pipeline[OF assms(1,2,3)] by simp
  from sorted_grid_bucket[OF this INT_MAX_GRID_UNDEF[OF assms(1)] assms(4)]
  show ?thesis .
qed

text \<open>
  Claim C2. The offsets are the exclusive prefix sum of the counts: the first offset is
  zero, each next offset adds the count of the cell before, and the total (the last
  offset plus the last count, the sum of all counts) is the number of birds whose cell
  is not \<open>GRID_UNDEF\<close>.
\<close>

theorem C2_offsets:
  assumes "gridTotal acc \<le> INT_MAX"
    and "InsertIntoGrid acc birds g0 = Inr g1"
    and "PrefixSumGrid acc (length birds) g1 = Inr g2"
  shows "(0 < nat (gridTotal acc) \<longrightarrow> AGRIDOFF g2 ! 0 = 0) \<and>
         (\<forall>c. Suc c < nat (gridTotal acc) \<longrightarrow>
            AGRIDOFF g2 ! Suc c = AGRIDOFF g2 ! c + AGRIDCNT g2 ! c) \<and>
         (0 < nat (gridTotal acc) \<longrightarrow>
            AGRIDOFF g2 ! (nat (gridTotal acc) - 1) + AGRIDCNT g2 ! (nat (gridTotal acc) - 1)
              = card {n. n < length birds \<and> FGCELL g2 ! n \<noteq> GRID_UNDEF}) \<and>
         sum_list (AGRIDCNT g2) = card {n. n < length birds \<and> FGCELL g2 ! n \<noteq> GRID_UNDEF}"
proof -
  let ?T = "nat (gridTotal acc)" and ?N = "length birds"
  have T: "?T \<le> GRID_UNDEF" by (rule INT_MAX_GRID_UNDEF[OF assms(1)])
  have lay: "layout ?N ?T g2"
    using grid_pipeline[OF assms] by (simp add: sorted_grid_def)
  have len: "length (AGRIDCNT g2) = ?T" using lay by (simp add: layout_def count_inv_def)
  have off: "AGRIDOFF g2 ! c = sum_list (take c (AGRIDCNT g2))" if "c < ?T" for c
    using lay that by (simp add: layout_def)
  have tot: "sum_list (AGRIDCNT g2) = card {n. n < ?N \<and> FGCELL g2 ! n \<noteq> GRID_UNDEF}"
    by (rule layout_total[OF lay T])
  have a: "0 < ?T \<longrightarrow> AGRIDOFF g2 ! 0 = 0" using off[of 0] by simp
  have b: "\<forall>c. Suc c < ?T \<longrightarrow> AGRIDOFF g2 ! Suc c = AGRIDOFF g2 ! c + AGRIDCNT g2 ! c"
    using off len by (simp add: take_Suc_conv_app_nth)
  have c: "0 < ?T \<longrightarrow> AGRIDOFF g2 ! (?T - 1) + AGRIDCNT g2 ! (?T - 1)
              = card {n. n < ?N \<and> FGCELL g2 ! n \<noteq> GRID_UNDEF}"
  proof
    assume pos: "0 < ?T"
    then obtain t where t: "?T = Suc t" by (cases "?T") auto
    have xs: "take t (AGRIDCNT g2) @ [AGRIDCNT g2 ! t] = AGRIDCNT g2"
      using take_Suc_conv_app_nth[of t "AGRIDCNT g2"] len t by simp
    have "sum_list (take t (AGRIDCNT g2) @ [AGRIDCNT g2 ! t])
        = sum_list (take t (AGRIDCNT g2)) + AGRIDCNT g2 ! t" by simp
    then have "sum_list (AGRIDCNT g2) = AGRIDOFF g2 ! t + AGRIDCNT g2 ! t"
      using off[of t] t unfolding xs by simp
    then show "AGRIDOFF g2 ! (?T - 1) + AGRIDCNT g2 ! (?T - 1)
              = card {n. n < ?N \<and> FGCELL g2 ! n \<noteq> GRID_UNDEF}" using tot t by simp
  qed
  show ?thesis using a b c tot by blast
qed

subsection \<open>The counting sort on an example\<close>


lemma ex_insert: "InsertIntoGrid ex_accel ex_birds ex_grid0 = Inr ex_grid1"
  by code_simp

lemma ex_prefix: "PrefixSumGrid ex_accel (length ex_birds) ex_grid1 = Inr ex_grid2"
  by code_simp

lemma ex_total: "gridTotal ex_accel \<le> INT_MAX"
  by code_simp

theorem C1_bucket_exact_witness:
  "gridTotal ex_accel \<le> INT_MAX \<and>
   InsertIntoGrid ex_accel ex_birds ex_grid0 = Inr ex_grid1 \<and>
   PrefixSumGrid ex_accel (length ex_birds) ex_grid1 = Inr ex_grid2 \<and>
   bucket ex_grid2 17 = [0, 3] \<and>
   set (bucket ex_grid2 17) = {n. n < length ex_birds \<and> FGCELL ex_grid2 ! n = 17} \<and>
   distinct (bucket ex_grid2 17)"
proof -
  have c: "(17::nat) < nat (gridTotal ex_accel)" by code_simp
  have b: "bucket ex_grid2 17 = [0, 3]" by code_simp
  show ?thesis
    using C1_bucket_exact[OF ex_total ex_insert ex_prefix c] ex_total ex_insert ex_prefix b
    by simp
qed

theorem C2_offsets_witness:
  "gridTotal ex_accel \<le> INT_MAX \<and>
   InsertIntoGrid ex_accel ex_birds ex_grid0 = Inr ex_grid1 \<and>
   PrefixSumGrid ex_accel (length ex_birds) ex_grid1 = Inr ex_grid2 \<and>
   AGRIDOFF ex_grid2 ! 0 = 0 \<and>
   AGRIDOFF ex_grid2 ! Suc 17 = AGRIDOFF ex_grid2 ! 17 + AGRIDCNT ex_grid2 ! 17 \<and>
   AGRIDOFF ex_grid2 ! 35 + AGRIDCNT ex_grid2 ! 35 = 3 \<and>
   card {n. n < length ex_birds \<and> FGCELL ex_grid2 ! n \<noteq> GRID_UNDEF} = 3"
proof -
  have s: "sum_list (AGRIDCNT ex_grid2) = 3" by code_simp
  have t: "nat (gridTotal ex_accel) = 36" by code_simp
  note th = C2_offsets[OF ex_total ex_insert ex_prefix, unfolded t]
  from th have "\<forall>c. Suc c < 36 \<longrightarrow>
      AGRIDOFF ex_grid2 ! Suc c = AGRIDOFF ex_grid2 ! c + AGRIDCNT ex_grid2 ! c" by blast
  then have "Suc 17 < 36 \<longrightarrow>
      AGRIDOFF ex_grid2 ! Suc 17 = AGRIDOFF ex_grid2 ! 17 + AGRIDCNT ex_grid2 ! 17" by (rule spec)
  then have b: "AGRIDOFF ex_grid2 ! Suc 17 = AGRIDOFF ex_grid2 ! 17 + AGRIDCNT ex_grid2 ! 17"
    by simp
  show ?thesis
    using th ex_total ex_insert ex_prefix s b by simp
qed

subsection \<open>The bounded insertion list stays inside its arrays\<close>

lemma efold_no_error:
  assumes "I s"
    and "\<And>x t. x \<in> set xs \<Longrightarrow> I t \<Longrightarrow> f x t \<noteq> Inl e \<and> (\<forall>t'. f x t = Inr t' \<longrightarrow> I t')"
  shows "efold f xs s \<noteq> Inl e \<and> (\<forall>s'. efold f xs s = Inr s' \<longrightarrow> I s')"
  using assms
proof (induction xs arbitrary: s)
  case Nil
  then show ?case by simp
next
  case (Cons x xs)
  show ?case
  proof (cases "f x s")
    case (Inl e')
    then show ?thesis using Cons.prems(2)[of x s] Cons.prems(1) by auto
  next
    case (Inr t)
    have "I t" using Cons.prems(2)[of x s] Cons.prems(1) Inr by auto
    from Cons.IH[OF this] Cons.prems(2) Inr show ?thesis by auto
  qed
qed

lemma efold_invariant:
  assumes "efold f xs s = Inr s'" and "I s"
    and "\<And>x t t'. x \<in> set xs \<Longrightarrow> I t \<Longrightarrow> f x t = Inr t' \<Longrightarrow> I t'"
  shows "I s'"
  using assms
proof (induction xs arbitrary: s)
  case Nil
  then show ?case by simp
next
  case (Cons x xs)
  from Cons.prems(1) obtain t where t: "f x s = Inr t" "efold f xs t = Inr s'"
    by (auto split: sum.splits)
  have "I t" using Cons.prems(3)[of x s t] Cons.prems(2) t(1) by simp
  from Cons.IH[OF t(2) this] Cons.prems(3) show ?case by auto
qed

lemma find_k_ok:
  assumes "0 \<le> k" "k < int (length d)" "snum < int (length d)"
  shows "\<exists>k'. find_k d dsq snum k = Inr k' \<and> k \<le> k' \<and> k' < int (length d) \<and> (k' \<le> snum \<or> k' = k)"
  using assms
proof (induction d dsq snum k rule: find_k.induct)
  case (1 d dsq snum k)
  show ?case
  proof (cases "flt_less (d ! nat k) dsq \<and> k < snum")
    case True
    then have "\<exists>k'. find_k d dsq snum (k + 1) = Inr k' \<and> k + 1 \<le> k' \<and> k' < int (length d)
        \<and> (k' \<le> snum \<or> k' = k + 1)"
      using "1.IH" "1.prems" by auto
    then obtain k' where k': "find_k d dsq snum (k + 1) = Inr k'" "k + 1 \<le> k'"
      "k' < int (length d)" "k' \<le> snum \<or> k' = k + 1" by blast
    have "find_k d dsq snum k = Inr k'"
      using True "1.prems" k'(1) by (subst find_k.simps) auto
    then show ?thesis using k' True by auto
  next
    case False
    have "find_k d dsq snum k = Inr k"
      using False "1.prems" by (subst find_k.simps) auto
    then show ?thesis using "1.prems" by auto
  qed
qed

lemma shift_down_ok:
  assumes "0 \<le> k" "m + 1 < int (length d)" "length js = length d"
  shows "\<exists>d' js'. shift_down (d, js) m k = Inr (d', js') \<and> length d' = length d \<and> length js' = length d"
  using assms
proof (induction "(d, js)" m k arbitrary: d js rule: shift_down.induct)
  case (1 m k)
  show ?case
  proof (cases "m \<ge> k")
    case True
    let ?d = "d[nat (m + 1) := d ! nat m]" and ?js = "js[nat (m + 1) := js ! nat m]"
    have "\<exists>d' js'. shift_down (?d, ?js) (m - 1) k = Inr (d', js') \<and> length d' = length ?d
        \<and> length js' = length ?d"
      using "1.hyps"[of d js] "1.prems" True by auto
    then obtain d' js' where r: "shift_down (?d, ?js) (m - 1) k = Inr (d', js')"
      "length d' = length d" "length js' = length d" by auto
    have "shift_down (d, js) m k = Inr (d', js')"
      using True "1.prems" r(1) by (subst shift_down.simps) auto
    then show ?thesis using r by auto
  next
    case False
    then have "shift_down (d, js) m k = Inr (d, js)" by (subst shift_down.simps) auto
    then show ?thesis using "1.prems" by auto
  qed
qed

lemma nbr_insert_ok:
  assumes ok: "sort_ok K st" and K: "K \<le> 15"
  shows "\<exists>st'. nbr_insert K dsq j st = Inr st' \<and> sort_ok K st' \<and>
           m_Birds st' = m_Birds st \<and> cluster_assignment st' = cluster_assignment st \<and>
           max_cluster_id st' = max_cluster_id st"
proof -
  have len: "length (sort_d_nbr st) = 16" "length (sort_j_nbr st) = 16" and sn: "sort_num st \<le> max 0 K"
    using ok by (simp_all add: sort_ok_def)
  have "\<exists>k'. find_k (sort_d_nbr st) dsq (sort_num st) 0 = Inr k' \<and> 0 \<le> k' \<and>
      k' < int (length (sort_d_nbr st)) \<and> (k' \<le> sort_num st \<or> k' = 0)"
    by (rule find_k_ok) (use len sn K in auto)
  then have "\<exists>k'. find_k (sort_d_nbr st) dsq (sort_num st) 0 = Inr k' \<and> 0 \<le> k' \<and>
      k' < 16 \<and> (k' \<le> sort_num st \<or> k' = 0)"
    unfolding len by simp
  then obtain k where k: "find_k (sort_d_nbr st) dsq (sort_num st) 0 = Inr k" "0 \<le> k" "k < 16"
    "k \<le> sort_num st \<or> k = 0" by blast
  show ?thesis
  proof (cases "k \<le> sort_num st")
    case False
    then show ?thesis using k ok by (simp add: nbr_insert_def)
  next
    case True
    have "\<exists>d js. (if k \<noteq> sort_num st
                   then shift_down (sort_d_nbr st, sort_j_nbr st) (sort_num st - 1) k
                   else Inr (sort_d_nbr st, sort_j_nbr st)) = Inr (d, js) \<and> length d = 16 \<and> length js = 16"
    proof (cases "k \<noteq> sort_num st")
      case True
      from shift_down_ok[of k "sort_num st - 1" "sort_d_nbr st" "sort_j_nbr st"] k(2) len sn K
      show ?thesis using True by auto
    next
      case False
      then show ?thesis using len by simp
    qed
    then obtain d js where s: "(if k \<noteq> sort_num st
                   then shift_down (sort_d_nbr st, sort_j_nbr st) (sort_num st - 1) k
                   else Inr (sort_d_nbr st, sort_j_nbr st)) = Inr (d, js)" "length d = 16" "length js = 16"
      by blast
    show ?thesis
      using True k s sn K unfolding nbr_insert_def sort_ok_def by simp
  qed
qed

lemma keepsI:
  "(\<And>t. I t \<Longrightarrow> f t \<noteq> Inl e) \<Longrightarrow> (\<And>t t'. I t \<Longrightarrow> f t = Inr t' \<Longrightarrow> I t') \<Longrightarrow> keeps e I f"
  unfolding keeps_def by blast

lemma keepsD1: "keeps e I f \<Longrightarrow> I t \<Longrightarrow> f t \<noteq> Inl e"
  unfolding keeps_def by blast

lemma keepsD2: "keeps e I f \<Longrightarrow> I t \<Longrightarrow> f t = Inr t' \<Longrightarrow> I t'"
  unfolding keeps_def by blast

lemma keeps_efold:
  assumes "\<And>x. x \<in> set xs \<Longrightarrow> keeps e I (f x)"
  shows "keeps e I (efold f xs)"
proof (rule keepsI)
  fix t assume t: "I t"
  have *: "efold f xs t \<noteq> Inl e \<and> (\<forall>t'. efold f xs t = Inr t' \<longrightarrow> I t')"
  proof (rule efold_no_error[of I t xs f e, OF t])
    fix x u assume "x \<in> set xs" "I u"
    then show "f x u \<noteq> Inl e \<and> (\<forall>t'. f x u = Inr t' \<longrightarrow> I t')"
      using keepsD1[OF assms, of x u] keepsD2[OF assms, of x u] by blast
  qed
  show "efold f xs t \<noteq> Inl e" using * by blast
  fix t' assume "efold f xs t = Inr t'"
  then show "I t'" using * by blast
qed

lemma keeps_if:
  assumes "b \<Longrightarrow> keeps e I f" "\<not> b \<Longrightarrow> keeps e I h"
  shows "keeps e I (\<lambda>s. if b then f s else h s)"
  using assms by (cases b) simp_all

lemma keeps_Inl: "e' \<noteq> e \<Longrightarrow> keeps e I (\<lambda>s. Inl e')"
  by (rule keepsI) simp_all

lemma keeps_Inr: "keeps e I Inr"
  by (rule keepsI) simp_all

lemma keeps_bind:
  assumes "keeps e I f" "keeps e I h"
  shows "keeps e I (\<lambda>s. case f s of Inl x \<Rightarrow> Inl x | Inr s' \<Rightarrow> h s')"
proof (rule keepsI)
  fix t assume t: "I t"
  show "(case f t of Inl x \<Rightarrow> Inl x | Inr s' \<Rightarrow> h s') \<noteq> Inl e"
  proof (cases "f t")
    case (Inl x)
    then show ?thesis using keepsD1[OF assms(1) t] by simp
  next
    case (Inr u)
    then show ?thesis using keepsD1[OF assms(2) keepsD2[OF assms(1) t Inr]] by simp
  qed
  fix t' assume r: "(case f t of Inl x \<Rightarrow> Inl x | Inr s' \<Rightarrow> h s') = Inr t'"
  show "I t'"
  proof (cases "f t")
    case (Inl x)
    then show ?thesis using r by simp
  next
    case (Inr u)
    then show ?thesis using keepsD2[OF assms(2) keepsD2[OF assms(1) t Inr]] r by simp
  qed
qed

lemma keeps_scan_cell:
  assumes "\<And>j. keeps e I (body j)" "e \<noteq> GridOutOfBounds"
  shows "keeps e I (scan_cell body g cell)"
proof -
  have "keeps e I (efold (\<lambda>cndx s. if cndx < length (AGRID g) then body (AGRID g ! cndx) s
                              else Inl GridOutOfBounds) xs)" for xs
    by (rule keeps_efold, rule keeps_if) (use assms keeps_Inl in auto)
  then show ?thesis
    unfolding scan_cell_def Let_def
    by (intro keeps_if keeps_Inl) (use assms(2) in auto)
qed

lemma keeps_scan_window:
  assumes "\<And>j. keeps e I (body j)" "e \<noteq> GridOutOfBounds"
  shows "keeps e I (scan_window body acc g gc)"
  unfolding scan_window_def
  by (rule keeps_efold, rule keeps_if) (use keeps_scan_cell[OF assms] keeps_Inl assms(2) in auto)

lemma push_cluster_err: "push_cluster ca c m \<noteq> Inl SortNbrOutOfBounds"
  by (simp add: push_cluster_def)

lemma same_sort_ok: "same_sort st st' \<Longrightarrow> sort_ok K st \<Longrightarrow> sort_ok K st'"
  by (simp add: same_sort_def sort_ok_def)

lemma merge_member_sort:
  "merge_member c kk t \<noteq> Inl SortNbrOutOfBounds"
  "merge_member c kk t = Inr t' \<Longrightarrow> same_sort t t'"
  unfolding merge_member_def push_cluster_def same_sort_def
  by (cases "kk < length (m_Birds t)"; cases "0 \<le> c \<and> nat c < length (cluster_assignment t)"; force)+

lemma same_sort_trans: "same_sort a b \<Longrightarrow> same_sort b c \<Longrightarrow> same_sort a c"
  by (simp add: same_sort_def)

lemma keeps_merge_member: "keeps SortNbrOutOfBounds (same_sort s) (merge_member c kk)"
proof (rule keepsI)
  fix t show "merge_member c kk t \<noteq> Inl SortNbrOutOfBounds" by (rule merge_member_sort(1))
next
  fix t t' assume "same_sort s t" "merge_member c kk t = Inr t'"
  then show "same_sort s t'" using merge_member_sort(2) same_sort_trans by blast
qed

lemma cluster_join_sort:
  "cluster_join i j t \<noteq> Inl SortNbrOutOfBounds"
  "cluster_join i j t = Inr t' \<Longrightarrow> same_sort t t'"
  unfolding cluster_join_def push_cluster_def same_sort_def
  by (cases "cluster_id (m_Birds t ! j) = - 1";
      cases "0 \<le> cluster_id (m_Birds t ! i) \<and> nat (cluster_id (m_Birds t ! i)) < length (cluster_assignment t)";
      force)+

lemma cluster_merge_sort:
  "cluster_merge i j t \<noteq> Inl SortNbrOutOfBounds"
  "cluster_merge i j t = Inr t' \<Longrightarrow> same_sort t t'"
proof -
  have k: "keeps SortNbrOutOfBounds (same_sort t) (efold (merge_member c) xs)" for c xs
    by (rule keeps_efold) (rule keeps_merge_member)
  have t: "same_sort t t" by (simp add: same_sort_def)
  have k1: "efold (merge_member c) xs t \<noteq> Inl SortNbrOutOfBounds" for c xs
    by (rule keepsD1[OF k t])
  have k2: "efold (merge_member c) xs t = Inr u \<Longrightarrow> same_sort t u" for c xs u
    by (rule keepsD2[OF k t])
  show "cluster_merge i j t \<noteq> Inl SortNbrOutOfBounds"
    using k1 by (auto simp: cluster_merge_def Let_def at_cluster_def split: sum.splits)
  assume "cluster_merge i j t = Inr t'"
  then show "same_sort t t'"
    using k2 by (auto simp: cluster_merge_def Let_def at_cluster_def same_sort_def
        split: sum.splits if_splits)
qed

lemma cluster_pair_sort:
  "cluster_pair i j t \<noteq> Inl SortNbrOutOfBounds"
  "cluster_pair i j t = Inr t' \<Longrightarrow> same_sort t t'"
  using cluster_join_sort[of i j t] cluster_merge_sort[of i j]
  by (auto simp: cluster_pair_def same_sort_def split: sum.splits)

lemma keeps_cluster_pair: "keeps SortNbrOutOfBounds (sort_ok K) (cluster_pair i j)"
proof (rule keepsI)
  fix t show "cluster_pair i j t \<noteq> Inl SortNbrOutOfBounds" by (rule cluster_pair_sort(1))
next
  fix t t' assume "sort_ok K t" "cluster_pair i j t = Inr t'"
  then show "sort_ok K t'" using cluster_pair_sort(2) same_sort_ok by blast
qed

lemma keeps_cluster_test: "keeps SortNbrOutOfBounds (sort_ok K) (cluster_test prm i j dsq)"
  unfolding cluster_test_def by (rule keeps_if) (rule keeps_cluster_pair keeps_Inr)+

lemma keeps_nbr_test:
  assumes "neighbors prm \<le> 15"
  shows "keeps SortNbrOutOfBounds (sort_ok (neighbors prm)) (nbr_test prm nrm rd2 i posi diri j posj dsq)"
proof (rule keepsI)
  fix t assume t: "sort_ok (neighbors prm) t"
  from nbr_insert_ok[OF t assms, of dsq j]
  obtain s where s: "nbr_insert (neighbors prm) dsq j t = Inr s" "sort_ok (neighbors prm) s" by blast
  have cr: "sort_ok (neighbors prm) (count_r_nbrs i s)"
    using s(2) by (simp add: sort_ok_def count_r_nbrs_def)
  show "nbr_test prm nrm rd2 i posi diri j posj dsq t \<noteq> Inl SortNbrOutOfBounds"
    using s(1) by (simp add: nbr_test_def Let_def)
  fix t' assume "nbr_test prm nrm rd2 i posi diri j posj dsq t = Inr t'"
  then show "sort_ok (neighbors prm) t'"
    using s(1) cr t by (auto simp: nbr_test_def Let_def split: if_splits)
qed

lemma keeps_visit:
  assumes "neighbors prm \<le> 15"
  shows "keeps SortNbrOutOfBounds (sort_ok (neighbors prm)) (visit prm nrm rd2 i posi diri j)"
proof (rule keepsI)
  fix t assume t: "sort_ok (neighbors prm) t"
  let ?dsq = "dist_sq posi (pos (m_Birds t ! j))"
  note b = keeps_bind[OF keeps_cluster_test[of "neighbors prm" prm i j ?dsq]
      keeps_nbr_test[OF assms, of nrm rd2 i posi diri j "pos (m_Birds t ! j)" ?dsq]]
  show "visit prm nrm rd2 i posi diri j t \<noteq> Inl SortNbrOutOfBounds"
    using keepsD1[OF b t] by (simp add: visit_def Let_def)
  fix t' assume "visit prm nrm rd2 i posi diri j t = Inr t'"
  then show "sort_ok (neighbors prm) t'"
    using keepsD2[OF b t, of t'] t by (auto simp: visit_def Let_def split: if_splits)
qed

lemma keeps_add_nbr:
  assumes "K \<le> 15" "int k < n"
  shows "keeps SortNbrOutOfBounds (\<lambda>s. sort_ok K s \<and> sort_num s = n) (add_nbr i k)"
proof (rule keepsI)
  fix t assume t: "sort_ok K t \<and> sort_num t = n"
  then have k: "k < length (sort_j_nbr t)" using assms by (auto simp: sort_ok_def)
  show "add_nbr i k t \<noteq> Inl SortNbrOutOfBounds"
    using k by (simp add: add_nbr_def Let_def)
  fix t' assume "add_nbr i k t = Inr t'"
  then show "sort_ok K t' \<and> sort_num t' = n"
    using t by (auto simp: add_nbr_def Let_def sort_ok_def split: if_splits)
qed

lemma keeps_finish_bird: "keeps SortNbrOutOfBounds (sort_ok K) (finish_bird i)"
proof (rule keepsI)
  fix t assume t: "sort_ok K t"
  then show "finish_bird i t \<noteq> Inl SortNbrOutOfBounds"
    by (simp add: finish_bird_def Let_def sort_ok_def)
  fix t' assume "finish_bird i t = Inr t'"
  then show "sort_ok K t'"
    using t by (auto simp: finish_bird_def Let_def sort_ok_def split: if_splits)
qed

lemma keeps_aggregate:
  assumes "K \<le> 15"
  shows "keeps SortNbrOutOfBounds (sort_ok K) (aggregate i)"
proof (rule keepsI)
  fix t assume t: "sort_ok K t"
  let ?I = "\<lambda>s. sort_ok K s \<and> sort_num s = sort_num t"
  have l: "keeps SortNbrOutOfBounds ?I (efold (add_nbr i) [0..<nat (sort_num t)])"
    by (rule keeps_efold) (use keeps_add_nbr[OF assms] in auto)
  have f: "keeps SortNbrOutOfBounds (sort_ok K) (finish_bird i)" by (rule keeps_finish_bird)
  have t': "?I t" using t by simp
  show "aggregate i t \<noteq> Inl SortNbrOutOfBounds"
  proof (cases "efold (add_nbr i) [0..<nat (sort_num t)] t")
    case (Inl e)
    then show ?thesis using keepsD1[OF l t'] by (simp add: aggregate_def)
  next
    case (Inr u)
    then show ?thesis using keepsD1[OF f, of u] keepsD2[OF l t' Inr] by (simp add: aggregate_def)
  qed
  fix u' assume a: "aggregate i t = Inr u'"
  then obtain u where u: "efold (add_nbr i) [0..<nat (sort_num t)] t = Inr u" "finish_bird i u = Inr u'"
    by (auto simp: aggregate_def split: sum.splits)
  show "sort_ok K u'"
    using keepsD2[OF f _ u(2)] keepsD2[OF l t' u(1)] by simp
qed

lemma keeps_bird_scan:
  assumes "neighbors prm \<le> 15"
  shows "keeps SortNbrOutOfBounds (sort_ok (neighbors prm)) (bird_scan acc prm nrm rd2 nadj g i)"
proof (rule keepsI)
  fix t assume t: "sort_ok (neighbors prm) t"
  let ?K = "neighbors prm"
  let ?st2 = "clear_bird i (new_cluster i t)"
  let ?posi = "pos (m_Birds t ! i)" and ?diri = "nrm (vel (m_Birds (new_cluster i t) ! i))"
  have t2: "sort_ok ?K ?st2"
    using t by (simp add: sort_ok_def clear_bird_def new_cluster_def)
  have w: "keeps SortNbrOutOfBounds (sort_ok ?K)
      (scan_window (visit prm nrm rd2 i ?posi ?diri) acc g (int (FGCELL g ! i) - nadj))"
    by (rule keeps_scan_window) (use keeps_visit[OF assms] in auto)
  show "bird_scan acc prm nrm rd2 nadj g i t \<noteq> Inl SortNbrOutOfBounds"
    using keepsD1[OF w t2] by (simp add: bird_scan_def Let_def)
  fix t' assume "bird_scan acc prm nrm rd2 nadj g i t = Inr t'"
  then show "sort_ok ?K t'"
    using keepsD2[OF w t2, of t'] t2 by (auto simp: bird_scan_def Let_def split: if_splits)
qed

lemma keeps_bird_step:
  assumes "neighbors prm \<le> 15"
  shows "keeps SortNbrOutOfBounds (sort_ok (neighbors prm)) (bird_step acc prm nrm rd2 nadj g i)"
  unfolding bird_step_def
  by (rule keeps_bind[OF keeps_bird_scan[OF assms] keeps_aggregate[OF assms]])

text \<open>
  Claim C10. With \<^verbatim>\<open>m_Params.neighbors\<close> at most 15, every read and write of the 16-entry
  arrays \<open>sort_d_nbr\<close> and \<open>sort_j_nbr\<close> in \<open>FindNeighbors\<close> stays inside them: the read of
  \<open>sort_d_nbr[k]\<close> in the loop condition (made before \<open>k < sort_num\<close> is tested), the
  writes at \<open>m + 1\<close> of the shift, the write at \<open>k\<close> and the reads of the aggregation. An
  access outside the arrays is the error \<open>SortNbrOutOfBounds\<close> of the model.
\<close>

theorem C10_sort_arrays_in_bounds:
  assumes "neighbors prm \<le> 15" "length d0 = 16" "length j0 = 16"
  shows "FindNeighbors acc prm nrm g d0 j0 bs \<noteq> Inl SortNbrOutOfBounds"
proof -
  have i: "sort_ok (neighbors prm) (init_state d0 j0 bs)"
    using assms by (simp add: sort_ok_def init_state_def)
  have "keeps SortNbrOutOfBounds (sort_ok (neighbors prm))
      (efold (bird_step acc prm nrm (search_radius_sq acc) (nadj_of acc) g) [0..<length bs])"
    by (rule keeps_efold) (rule keeps_bird_step[OF assms(1)])
  from keepsD1[OF this i] show ?thesis
    using assms by (simp add: FindNeighbors_def)
qed

theorem C10_sort_arrays_in_bounds_witness:
  "neighbors ex_prm \<le> 15 \<and> length ex_d0 = 16 \<and> length ex_j0 = 16 \<and>
   FindNeighbors ex_accel2 ex_prm ex_nrm ex_grid2 ex_d0 ex_j0 ex_birds \<noteq> Inl SortNbrOutOfBounds"
proof -
  have a: "neighbors ex_prm \<le> 15" by (simp add: ex_prm_def)
  have b: "length ex_d0 = 16" "length ex_j0 = 16" by (simp_all add: ex_d0_def ex_j0_def)
  show ?thesis
    using C10_sort_arrays_in_bounds[OF a b, of ex_accel2 ex_nrm ex_grid2 ex_birds] a b by simp
qed

subsection \<open>The bounded insertion keeps the K closest candidates\<close>










lemma same_geom_refl: "same_geom st st"
  by (simp add: same_geom_def)

lemma same_geom_trans: "same_geom a b \<Longrightarrow> same_geom b c \<Longrightarrow> same_geom a c"
  by (simp add: same_geom_def)

lemma same_geom_length: "same_geom st st' \<Longrightarrow> length (m_Birds st') = length (m_Birds st)"
  unfolding same_geom_def using map_eq_imp_length_eq by blast

lemma same_geom_static:
  "same_geom st st' \<Longrightarrow> j < length (m_Birds st) \<Longrightarrow> static (m_Birds st' ! j) = static (m_Birds st ! j)"
  unfolding same_geom_def by (metis length_map nth_map)

lemma same_geom_pos: "same_geom st st' \<Longrightarrow> j < length (m_Birds st) \<Longrightarrow> pos (m_Birds st' ! j) = pos (m_Birds st ! j)"
  using same_geom_static[of st st' j] by (simp add: static_def)

lemma same_geom_vel: "same_geom st st' \<Longrightarrow> j < length (m_Birds st) \<Longrightarrow> vel (m_Birds st' ! j) = vel (m_Birds st ! j)"
  using same_geom_static[of st st' j] by (simp add: static_def)

lemma map_update_same:
  assumes "f y = f (xs ! k)"
  shows "map f (xs[k := y]) = map f xs"
proof (cases "k < length xs")
  case True
  have "map f (xs[k := y]) = (map f xs)[k := f (xs ! k)]" using assms by (simp add: map_update)
  also have "\<dots> = map f xs" using True by (metis list_update_id nth_map)
  finally show ?thesis .
next
  case False
  then show ?thesis by (simp add: list_update_beyond)
qed

lemma set_cluster_id_geom: "map static (set_cluster_id bs n c) = map static bs"
  unfolding set_cluster_id_def by (rule map_update_same) (simp add: static_def)

lemma merge_member_geom: "merge_member c kk t = Inr t' \<Longrightarrow> same_geom t t'"
  unfolding merge_member_def same_geom_def
  by (auto simp: set_cluster_id_geom split: if_splits sum.splits)

lemma cluster_join_geom: "cluster_join i j t = Inr t' \<Longrightarrow> same_geom t t'"
  unfolding cluster_join_def same_geom_def
  by (auto simp: set_cluster_id_geom split: if_splits sum.splits)

lemma efold_merge_geom: "efold (merge_member c) xs t = Inr t' \<Longrightarrow> same_geom t t'"
  by (rule efold_invariant[where I = "same_geom t"])
     (auto intro: same_geom_refl same_geom_trans merge_member_geom)

lemma cluster_merge_geom: "cluster_merge i j t = Inr t' \<Longrightarrow> same_geom t t'"
  unfolding cluster_merge_def Let_def
  by (auto split: if_splits sum.splits dest!: efold_merge_geom simp: same_geom_def)

lemma cluster_pair_geom: "cluster_pair i j t = Inr t' \<Longrightarrow> same_geom t t'"
  unfolding cluster_pair_def
  by (auto split: sum.splits intro: same_geom_trans cluster_join_geom cluster_merge_geom)


lemma count_r_nbrs_frame: "same_geom t (count_r_nbrs i t) \<and> same_sort t (count_r_nbrs i t)"
  unfolding same_geom_def same_sort_def count_r_nbrs_def
  by (auto intro: map_update_same simp: static_def)














lemma efold_checked_map:
  assumes "efold (\<lambda>x s. if P x then f (h x) s else Inl e) xs st = Inr st'"
  shows "efold f (map h xs) st = Inr st'"
  using assms by (induction xs arbitrary: st) (auto split: sum.splits if_splits)

lemma scan_cell_efold:
  assumes "scan_cell body g cell st = Inr st'"
  shows "efold body (bucket g (nat cell)) st = Inr st'"
  using assms unfolding scan_cell_def bucket_def Let_def
  by (auto split: if_splits intro: efold_checked_map)

lemma efold_concat:
  assumes "efold F cs st = Inr st'"
    and "\<And>c s s'. c \<in> set cs \<Longrightarrow> F c s = Inr s' \<Longrightarrow> efold body (E c) s = Inr s'"
  shows "efold body (concat (map E cs)) st = Inr st'"
  using assms
proof (induction cs arbitrary: st)
  case Nil
  then show ?case by simp
next
  case (Cons c cs)
  from Cons.prems(1) obtain s where s: "F c st = Inr s" "efold F cs s = Inr st'"
    by (auto split: sum.splits)
  have "efold body (E c) st = Inr s" using Cons.prems(2) s(1) by simp
  moreover have "efold body (concat (map E cs)) s = Inr st'"
    using Cons.IH[OF s(2)] Cons.prems(2) by simp
  ultimately show ?case by (simp add: efold_append)
qed

lemma scan_window_efold:
  assumes "scan_window body acc g gc st = Inr st'"
  shows "efold body (window_entries acc g gc) st = Inr st'"
  unfolding window_entries_def
  by (rule efold_concat[OF assms[unfolded scan_window_def]])
     (auto split: if_splits intro: scan_cell_efold)



subsection \<open>The aggregates are the means over the retained list\<close>

lemma nbr_insert_birds:
  assumes "nbr_insert K dsq j st = Inr st'"
  shows "m_Birds st' = m_Birds st \<and> cluster_assignment st' = cluster_assignment st \<and>
         max_cluster_id st' = max_cluster_id st"
  using assms unfolding nbr_insert_def
  by (auto split: sum.splits if_splits prod.splits)

lemma nbr_test_geom:
  assumes "nbr_test prm nrm rd2 i posi diri j posj dsq st = Inr st'"
  shows "same_geom st st'"
proof -
  have "st' = st \<or> (\<exists>s. nbr_insert (neighbors prm) dsq j st = Inr s \<and> st' = count_r_nbrs i s)"
    using assms unfolding nbr_test_def Let_def by (auto split: if_splits sum.splits)
  then show ?thesis
  proof
    assume "st' = st" then show ?thesis by (simp add: same_geom_refl)
  next
    assume "\<exists>s. nbr_insert (neighbors prm) dsq j st = Inr s \<and> st' = count_r_nbrs i s"
    then obtain s where s: "nbr_insert (neighbors prm) dsq j st = Inr s" "st' = count_r_nbrs i s" by blast
    have "same_geom st s" using nbr_insert_birds[OF s(1)] by (simp add: same_geom_def)
    then show ?thesis using count_r_nbrs_frame[of s i] s(2) same_geom_trans by blast
  qed
qed



lemma static_cluster_id [simp]: "static (b\<lparr> cluster_id := c \<rparr>) = static b"
  by (simp add: static_def)

lemma new_cluster_geom: "same_geom st (new_cluster i st)"
  unfolding same_geom_def new_cluster_def by (simp add: set_cluster_id_geom)

lemma same_except_refl: "same_except i bs bs"
  by (simp add: same_except_def)


lemma same_geom_except: "same_geom st st' \<Longrightarrow> same_except i (m_Birds st) (m_Birds st')"
proof -
  assume g: "same_geom st st'"
  have len: "length (m_Birds st') = length (m_Birds st)" by (rule same_geom_length[OF g])
  have "map pos (m_Birds st') = map pos (m_Birds st)"
    by (rule nth_equalityI) (use len same_geom_pos[OF g] in auto)
  moreover have "map vel (m_Birds st') = map vel (m_Birds st)"
    by (rule nth_equalityI) (use len same_geom_vel[OF g] in auto)
  ultimately show ?thesis using len same_geom_static[OF g] by (simp add: same_except_def)
qed

lemma same_except_update:
  assumes "pos b = pos (bs ! i)" "vel b = vel (bs ! i)"
  shows "same_except i bs (bs[i := b])"
  unfolding same_except_def using assms by (auto intro!: map_update_same)

lemma clear_bird_except: "same_except i (m_Birds st) (m_Birds (clear_bird i st))"
  unfolding clear_bird_def by (simp add: same_except_update)


lemma fmul_inverse:
  assumes "0 < n"
  shows "fmul a (fdiv (Finite 1) (i2f n)) = fdiv a (i2f n)"
  using assms by (cases a) (auto simp: i2f_def inf_of_sign_def)

lemma vscale_inverse: "0 < n \<Longrightarrow> vscale v (fdiv (Finite 1) (i2f n)) = vdivs v (i2f n)"
  by (simp add: vscale_def vdivs_def fmul_inverse)

lemma add_nbr_loop:
  assumes i: "i < length (m_Birds sc)"
    and e: "efold (add_nbr i) [0..<n] sc = Inr t"
  shows "t = sc\<lparr> m_Birds := (m_Birds sc)[i := agg_bird sc i n] \<rparr> \<and>
         (\<forall>m<n. 0 \<le> sort_j_nbr sc ! m \<and> nat (sort_j_nbr sc ! m) < length (m_Birds sc))"
proof (rule efold_upt_induct[OF e, where P = "\<lambda>k t. t = sc\<lparr> m_Birds := (m_Birds sc)[i := agg_bird sc i k] \<rparr>
    \<and> (\<forall>m<k. 0 \<le> sort_j_nbr sc ! m \<and> nat (sort_j_nbr sc ! m) < length (m_Birds sc))"])
  show "sc = sc\<lparr> m_Birds := (m_Birds sc)[i := agg_bird sc i 0] \<rparr> \<and>
     (\<forall>m<0. 0 \<le> sort_j_nbr sc ! m \<and> nat (sort_j_nbr sc ! m) < length (m_Birds sc))"
    by (simp add: agg_bird_def)
next
  fix k t t'
  assume k: "k < n" and tb: "t = sc\<lparr> m_Birds := (m_Birds sc)[i := agg_bird sc i k] \<rparr>
      \<and> (\<forall>m<k. 0 \<le> sort_j_nbr sc ! m \<and> nat (sort_j_nbr sc ! m) < length (m_Birds sc))"
    and a: "add_nbr i k t = Inr t'"
  from tb have t: "t = sc\<lparr> m_Birds := (m_Birds sc)[i := agg_bird sc i k] \<rparr>" by blast
  let ?jj = "sort_j_nbr sc ! k"
  have sj: "sort_j_nbr t = sort_j_nbr sc" and len: "length (m_Birds t) = length (m_Birds sc)"
    and bi: "m_Birds t ! i = agg_bird sc i k"
    using t i by simp_all
  from a have inb: "0 \<le> ?jj" "nat ?jj < length (m_Birds sc)"
    and t': "t' = t\<lparr> m_Birds := (m_Birds t)[i := (m_Birds t ! i)
                      \<lparr> ave_pos := vadd (ave_pos (m_Birds t ! i)) (pos (m_Birds t ! nat ?jj)),
                        ave_vel := vadd (ave_vel (m_Birds t ! i)) (vel (m_Birds t ! nat ?jj)) \<rparr>] \<rparr>"
    unfolding add_nbr_def Let_def sj len by (auto split: if_splits)
  have pj: "pos (m_Birds t ! nat ?jj) = pos (m_Birds sc ! nat ?jj)"
    "vel (m_Birds t ! nat ?jj) = vel (m_Birds sc ! nat ?jj)"
    unfolding t using i by (auto simp: nth_list_update agg_bird_def)
  have "(m_Birds t ! i)\<lparr> ave_pos := vadd (ave_pos (m_Birds t ! i)) (pos (m_Birds t ! nat ?jj)),
                        ave_vel := vadd (ave_vel (m_Birds t ! i)) (vel (m_Birds t ! nat ?jj)) \<rparr>
      = agg_bird sc i (Suc k)"
    unfolding bi pj by (simp add: agg_bird_def)
  then have "t' = sc\<lparr> m_Birds := (m_Birds sc)[i := agg_bird sc i (Suc k)] \<rparr>"
    unfolding t' by (simp add: t)
  then show "t' = sc\<lparr> m_Birds := (m_Birds sc)[i := agg_bird sc i (Suc k)] \<rparr> \<and>
      (\<forall>m<Suc k. 0 \<le> sort_j_nbr sc ! m \<and> nat (sort_j_nbr sc ! m) < length (m_Birds sc))"
    using tb inb by (auto simp: less_Suc_eq)
qed

lemma aggregate_result:
  assumes i: "i < length (m_Birds sc)"
    and a: "aggregate i sc = Inr t"
  shows "same_except i (m_Birds sc) (m_Birds t) \<and>
         (\<forall>m<nat (sort_num sc). 0 \<le> sort_j_nbr sc ! m \<and> nat (sort_j_nbr sc ! m) < length (m_Birds sc)) \<and>
         t_nbrs (m_Birds t ! i) = sort_num sc \<and>
         ave_pos (m_Birds t ! i) =
           (if sort_num sc > 0
            then vdivs (ave_pos (agg_bird sc i (nat (sort_num sc)))) (i2f (sort_num sc))
            else ave_pos (agg_bird sc i (nat (sort_num sc)))) \<and>
         ave_vel (m_Birds t ! i) =
           (if sort_num sc > 0
            then vdivs (ave_vel (agg_bird sc i (nat (sort_num sc)))) (i2f (sort_num sc))
            else ave_vel (agg_bird sc i (nat (sort_num sc))))"
proof -
  let ?n = "nat (sort_num sc)"
  from a obtain u where u: "efold (add_nbr i) [0..<?n] sc = Inr u" and f: "finish_bird i u = Inr t"
    by (auto simp: aggregate_def split: sum.splits)
  have ue: "u = sc\<lparr> m_Birds := (m_Birds sc)[i := agg_bird sc i ?n] \<rparr>"
    and bnd: "\<forall>m<?n. 0 \<le> sort_j_nbr sc ! m \<and> nat (sort_j_nbr sc ! m) < length (m_Birds sc)"
    using add_nbr_loop[OF i u] by blast+
  have ui: "m_Birds u ! i = agg_bird sc i ?n" and su: "sort_num u = sort_num sc"
    and lu: "length (m_Birds u) = length (m_Birds sc)"
    using ue i by simp_all
  obtain b where tb: "m_Birds t = (m_Birds u)[i := b]"
    and b: "pos b = pos (agg_bird sc i ?n)" "vel b = vel (agg_bird sc i ?n)"
      "t_nbrs b = sort_num sc"
      "ave_pos b = (if sort_num sc > 0
            then vscale (ave_pos (agg_bird sc i ?n)) (fdiv (Finite 1) (i2f (sort_num sc)))
            else ave_pos (agg_bird sc i ?n))"
      "ave_vel b = (if sort_num sc > 0
            then vscale (ave_vel (agg_bird sc i ?n)) (fdiv (Finite 1) (i2f (sort_num sc)))
            else ave_vel (agg_bird sc i ?n))"
    using f unfolding finish_bird_def Let_def ui su by (auto split: if_splits)
  have tb': "m_Birds t = (m_Birds sc)[i := b]" unfolding tb ue by simp
  have "same_except i (m_Birds sc) (m_Birds t)"
    unfolding tb' by (rule same_except_update) (simp_all add: b agg_bird_def)
  moreover have "m_Birds t ! i = b" unfolding tb' using i by simp
  ultimately show ?thesis using b bnd by (simp add: vscale_inverse)
qed












subsection \<open>The cluster tables stay consistent\<close>

lemma wf_partI:
  assumes "mx = int (length ca) - 1"
    and "\<And>b. b < length ids \<Longrightarrow> ids ! b \<noteq> - 1 \<Longrightarrow>
           0 \<le> ids ! b \<and> nat (ids ! b) < length ca \<and> b \<in> set (ca ! nat (ids ! b))"
    and "\<And>c. c < length ca \<Longrightarrow> distinct (ca ! c)"
    and "\<And>c m. c < length ca \<Longrightarrow> m \<in> set (ca ! c) \<Longrightarrow> m < length ids \<and> ids ! m = int c"
  shows "wf_part ids ca mx"
  unfolding wf_part_def using assms by blast

lemma wf_part_max: "wf_part ids ca mx \<Longrightarrow> mx = int (length ca) - 1"
  unfolding wf_part_def by blast

lemma wf_part_id:
  "wf_part ids ca mx \<Longrightarrow> b < length ids \<Longrightarrow> ids ! b \<noteq> - 1 \<Longrightarrow>
     0 \<le> ids ! b \<and> nat (ids ! b) < length ca \<and> b \<in> set (ca ! nat (ids ! b))"
  unfolding wf_part_def by blast

lemma wf_part_distinct: "wf_part ids ca mx \<Longrightarrow> c < length ca \<Longrightarrow> distinct (ca ! c)"
  unfolding wf_part_def by blast

lemma wf_part_member:
  "wf_part ids ca mx \<Longrightarrow> c < length ca \<Longrightarrow> m \<in> set (ca ! c) \<Longrightarrow> m < length ids \<and> ids ! m = int c"
  unfolding wf_part_def by blast

lemma wf_part_init: "wf_part (replicate n (- 1)) [] (- 1)"
  by (simp add: wf_part_def)

lemma wf_part_new:
  assumes wf: "wf_part ids ca mx" and i: "i < length ids" "ids ! i = - 1"
  shows "wf_part (ids[i := mx + 1]) (ca @ [[i]]) (mx + 1)"
proof (rule wf_partI)
  have mx: "mx + 1 = int (length ca)" using wf_part_max[OF wf] by simp
  show "mx + 1 = int (length (ca @ [[i]])) - 1" using mx by simp
  show "0 \<le> ids[i := mx + 1] ! b \<and> nat (ids[i := mx + 1] ! b) < length (ca @ [[i]]) \<and>
        b \<in> set ((ca @ [[i]]) ! nat (ids[i := mx + 1] ! b))"
    if b: "b < length (ids[i := mx + 1])" "ids[i := mx + 1] ! b \<noteq> - 1" for b
  proof (cases "b = i")
    case True
    then show ?thesis using i mx by simp
  next
    case False
    then have "ids ! b \<noteq> - 1" "b < length ids" using b by simp_all
    from wf_part_id[OF wf this(2,1)] False show ?thesis by (simp add: nth_append)
  qed
  show "distinct ((ca @ [[i]]) ! c)" if "c < length (ca @ [[i]])" for c
    using that wf_part_distinct[OF wf, of c] by (cases "c < length ca") (simp_all add: nth_append)
  show "m < length (ids[i := mx + 1]) \<and> ids[i := mx + 1] ! m = int c"
    if c: "c < length (ca @ [[i]])" and m: "m \<in> set ((ca @ [[i]]) ! c)" for c m
  proof (cases "c < length ca")
    case True
    then have "m \<in> set (ca ! c)" using m by (simp add: nth_append)
    from wf_part_member[OF wf True this] have mm: "m < length ids" "ids ! m = int c" by simp_all
    then have "m \<noteq> i" using i by auto
    then show ?thesis using mm by simp
  next
    case False
    then have "c = length ca" using c by simp
    then show ?thesis using m i mx by simp
  qed
qed

lemma wf_part_join:
  assumes wf: "wf_part ids ca mx" and j: "j < length ids" "ids ! j = - 1"
    and t: "0 \<le> t" "nat t < length ca"
  shows "wf_part (ids[j := t]) (ca[nat t := ca ! nat t @ [j]]) mx"
proof (rule wf_partI)
  let ?ids = "ids[j := t]" and ?ca = "ca[nat t := ca ! nat t @ [j]]"
  have notin: "j \<notin> set (ca ! c)" if "c < length ca" for c
    using wf_part_member[OF wf that, of j] j by auto
  show "mx = int (length ?ca) - 1" using wf_part_max[OF wf] by simp
  show "0 \<le> ?ids ! b \<and> nat (?ids ! b) < length ?ca \<and> b \<in> set (?ca ! nat (?ids ! b))"
    if b: "b < length ?ids" "?ids ! b \<noteq> - 1" for b
  proof (cases "b = j")
    case True
    then show ?thesis using j t by simp
  next
    case False
    then have "ids ! b \<noteq> - 1" "b < length ids" using b by simp_all
    from wf_part_id[OF wf this(2,1)] False show ?thesis
      by (cases "nat (ids ! b) = nat t") (simp_all add: nth_list_update)
  qed
  show "distinct (?ca ! c)" if "c < length ?ca" for c
    using that wf_part_distinct[OF wf, of c] notin[of c]
    by (cases "c = nat t") (simp_all add: nth_list_update)
  show "m < length ?ids \<and> ?ids ! m = int c"
    if c: "c < length ?ca" and m: "m \<in> set (?ca ! c)" for c m
  proof (cases "m = j")
    case True
    then have "c = nat t" using m c notin[of c] by (cases "c = nat t") (simp_all add: nth_list_update)
    then show ?thesis using True j t by simp
  next
    case False
    then have "m \<in> set (ca ! c)" using m c by (cases "c = nat t") (simp_all add: nth_list_update)
    from wf_part_member[OF wf _ this] c False show ?thesis by simp
  qed
qed

lemma wf_part_merge:
  assumes wf: "wf_part ids ca mx"
    and f: "0 \<le> f" "nat f < length ca" and t: "0 \<le> t" "nat t < length ca" and ne: "f \<noteq> t"
  shows "wf_part (retag f t ids) ((ca[nat t := ca ! nat t @ ca ! nat f])[nat f := []]) mx"
proof (rule wf_partI)
  let ?ids = "retag f t ids" and ?ca = "(ca[nat t := ca ! nat t @ ca ! nat f])[nat f := []]"
  have nft: "nat f \<noteq> nat t" using f t ne by simp
  have idn: "?ids ! b = (if ids ! b = f then t else ids ! b)" if "b < length ids" for b
    using that by (simp add: retag_def)
  have caf: "?ca ! nat f = []" using f by simp
  have cat: "?ca ! nat t = ca ! nat t @ ca ! nat f" using t nft by simp
  have cao: "?ca ! c = ca ! c" if "c \<noteq> nat f" "c \<noteq> nat t" for c using that by simp
  show "mx = int (length ?ca) - 1" using wf_part_max[OF wf] by simp
  show "0 \<le> ?ids ! b \<and> nat (?ids ! b) < length ?ca \<and> b \<in> set (?ca ! nat (?ids ! b))"
    if b: "b < length ?ids" "?ids ! b \<noteq> - 1" for b
  proof -
    have bl: "b < length ids" using b by (simp add: retag_def)
    have "ids ! b \<noteq> - 1" using b idn[OF bl] f by (auto split: if_splits)
    from wf_part_id[OF wf bl this]
    have w: "0 \<le> ids ! b" "nat (ids ! b) < length ca" "b \<in> set (ca ! nat (ids ! b))" by simp_all
    show ?thesis
    proof (cases "ids ! b = f")
      case True
      then show ?thesis using idn[OF bl] w t cat by simp
    next
      case nf: False
      show ?thesis
      proof (cases "ids ! b = t")
        case True
        then show ?thesis using idn[OF bl] w t cat nf by simp
      next
        case False
        then have "nat (ids ! b) \<noteq> nat f" "nat (ids ! b) \<noteq> nat t" using nf w f t by simp_all
        then show ?thesis using idn[OF bl] w nf cao by simp
      qed
    qed
  qed
  show "distinct (?ca ! c)" if c: "c < length ?ca" for c
  proof -
    have disj: "set (ca ! nat t) \<inter> set (ca ! nat f) = {}"
    proof (rule ccontr)
      assume "set (ca ! nat t) \<inter> set (ca ! nat f) \<noteq> {}"
      then obtain m where m: "m \<in> set (ca ! nat t)" "m \<in> set (ca ! nat f)" by blast
      have "ids ! m = int (nat t)" using wf_part_member[OF wf t(2) m(1)] by blast
      moreover have "ids ! m = int (nat f)" using wf_part_member[OF wf f(2) m(2)] by blast
      ultimately show False using nft f t by simp
    qed
    consider "c = nat f" | "c = nat t" | "c \<noteq> nat f" "c \<noteq> nat t" by blast
    then show ?thesis
    proof cases
      case 1 then show ?thesis using caf by simp
    next
      case 2 then show ?thesis
        using cat disj wf_part_distinct[OF wf t(2)] wf_part_distinct[OF wf f(2)] by simp
    next
      case 3 then show ?thesis using cao wf_part_distinct[OF wf, of c] c by simp
    qed
  qed
  show "m < length ?ids \<and> ?ids ! m = int c"
    if c: "c < length ?ca" and m: "m \<in> set (?ca ! c)" for c m
  proof -
    consider "c = nat f" | "c = nat t" | "c \<noteq> nat f" "c \<noteq> nat t" by blast
    then show ?thesis
    proof cases
      case 1 then show ?thesis using m caf by simp
    next
      case 2
      then have "m \<in> set (ca ! nat t) \<or> m \<in> set (ca ! nat f)" using m cat by simp
      then have "m < length ids \<and> (ids ! m = t \<or> ids ! m = f)"
        using wf_part_member[OF wf t(2), of m] wf_part_member[OF wf f(2), of m] f t by auto
      then show ?thesis using idn[of m] 2 t by (auto simp: retag_def)
    next
      case 3
      then have "m \<in> set (ca ! c)" using m cao by simp
      from wf_part_member[OF wf _ this] c have mm: "m < length ids" "ids ! m = int c" by simp_all
      then have "ids ! m \<noteq> f" using 3 f by auto
      then show ?thesis using mm idn[OF mm(1)] by (simp add: retag_def)
    qed
  qed
qed

lemma grows_refl: "grows v v"
  by (simp add: grows_def)

lemma conn_refl: "(a, a) \<in> conn G"
  by (simp add: conn_def)

lemma conn_sym: "(a, b) \<in> conn G \<Longrightarrow> (b, a) \<in> conn G"
proof -
  assume "(a, b) \<in> conn G"
  then have "(b, a) \<in> ((G \<union> G\<inverse>)\<^sup>*)\<inverse>" by (simp add: conn_def)
  also have "((G \<union> G\<inverse>)\<^sup>*)\<inverse> = ((G \<union> G\<inverse>)\<inverse>)\<^sup>*" by (rule rtrancl_converse[symmetric])
  also have "(G \<union> G\<inverse>)\<inverse> = G \<union> G\<inverse>" by auto
  finally show ?thesis by (simp add: conn_def)
qed

lemma conn_trans: "(a, b) \<in> conn G \<Longrightarrow> (b, c) \<in> conn G \<Longrightarrow> (a, c) \<in> conn G"
  unfolding conn_def by (rule rtrancl_trans)

lemma conn_edge: "(a, b) \<in> G \<Longrightarrow> (a, b) \<in> conn G"
  unfolding conn_def by blast

lemma retag_nth: "b < length ids \<Longrightarrow> retag f t ids ! b = (if ids ! b = f then t else ids ! b)"
  by (simp add: retag_def)

lemma retag_length: "length (retag f t ids) = length ids"
  by (simp add: retag_def)

lemma step_new_cinv:
  assumes "cinv G N v" "step_new v v'"
  shows "cinv G N v' \<and> grows v v'"
proof -
  obtain ids ca mx where v: "v = (ids, ca, mx)" by (cases v)
  from assms(2) v obtain i where i: "i < length ids" "ids ! i = - 1"
    and v': "v' = (ids[i := mx + 1], ca @ [[i]], mx + 1)"
    by (auto simp: step_new_def)
  from assms(1) v have len: "length ids = N" and wf: "wf_part ids ca mx"
    and so: "\<And>a b. linked ids a b \<Longrightarrow> (a, b) \<in> conn G"
    by (simp_all add: cinv_def)
  have mx: "mx + 1 = int (length ca)" using wf_part_max[OF wf] by simp
  have fresh: "ids ! b \<noteq> mx + 1" if "b < length ids" for b
    using wf_part_id[OF wf that] mx by (cases "ids ! b = - 1") auto
  have wf': "wf_part (ids[i := mx + 1]) (ca @ [[i]]) (mx + 1)" by (rule wf_part_new[OF wf i])
  have l': "(a, b) \<in> conn G" if "linked (ids[i := mx + 1]) a b" for a b
  proof (cases "a = i \<or> b = i")
    case True
    then have "a = b" using that fresh i mx
      by (auto simp: linked_def nth_list_update split: if_splits)
    then show ?thesis by (simp add: conn_refl)
  next
    case False
    then have "linked ids a b" using that by (auto simp: linked_def)
    then show ?thesis by (rule so)
  qed
  have g1: "\<forall>b<length ids. ids ! b \<noteq> - 1 \<longrightarrow> ids[i := mx + 1] ! b \<noteq> - 1"
    using i by (auto simp: nth_list_update)
  have g2: "\<forall>a b. linked ids a b \<longrightarrow> linked (ids[i := mx + 1]) a b"
    using i by (auto simp: linked_def nth_list_update)
  show ?thesis
    unfolding v v' cinv_def grows_def using len wf' l' g1 g2 by simp
qed

lemma step_join_cinv:
  assumes "cinv G N v" "step_join G v v'"
  shows "cinv G N v' \<and> grows v v'"
proof -
  obtain ids ca mx where v: "v = (ids, ca, mx)" by (cases v)
  from assms(2) v obtain i j where ij: "(i, j) \<in> G" "i < length ids" "j < length ids"
      "ids ! i \<noteq> - 1" "ids ! j = - 1"
    and v': "v' = (ids[j := ids ! i], ca[nat (ids ! i) := ca ! nat (ids ! i) @ [j]], mx)"
    by (auto simp: step_join_def)
  from assms(1) v have len: "length ids = N" and wf: "wf_part ids ca mx"
    and so: "\<And>a b. linked ids a b \<Longrightarrow> (a, b) \<in> conn G"
    by (simp_all add: cinv_def)
  let ?ids = "ids[j := ids ! i]"
  have t: "0 \<le> ids ! i" "nat (ids ! i) < length ca" using wf_part_id[OF wf ij(2,4)] by simp_all
  have wf': "wf_part ?ids (ca[nat (ids ! i) := ca ! nat (ids ! i) @ [j]]) mx"
    by (rule wf_part_join[OF wf ij(3,5) t])
  have ji: "(j, i) \<in> conn G" using conn_sym[OF conn_edge[OF ij(1)]] .
  have toi: "(a, i) \<in> conn G" if "a < length ids" "?ids ! a = ids ! i" for a
  proof (cases "a = j")
    case True then show ?thesis using ji by simp
  next
    case False
    then have "linked ids a i" using that ij by (simp add: linked_def)
    then show ?thesis by (rule so)
  qed
  have l': "(a, b) \<in> conn G" if "linked ?ids a b" for a b
  proof (cases "a = j \<or> b = j")
    case True
    then have "a < length ids" "b < length ids" "?ids ! a = ids ! i" "?ids ! b = ids ! i"
      using that ij by (auto simp: linked_def)
    then show ?thesis using toi conn_sym conn_trans by blast
  next
    case False
    then have "linked ids a b" using that by (auto simp: linked_def)
    then show ?thesis by (rule so)
  qed
  have g1: "\<forall>b<length ids. ids ! b \<noteq> - 1 \<longrightarrow> ?ids ! b \<noteq> - 1"
    using ij by (auto simp: nth_list_update)
  have g2: "\<forall>a b. linked ids a b \<longrightarrow> linked ?ids a b"
    using ij by (auto simp: linked_def nth_list_update)
  show ?thesis
    unfolding v v' cinv_def grows_def using len wf' l' g1 g2 by simp
qed

lemma step_merge_cinv:
  assumes "cinv G N v" "step_merge G v v'"
  shows "cinv G N v' \<and> grows v v'"
proof -
  obtain ids ca mx where v: "v = (ids, ca, mx)" by (cases v)
  from assms(2) v obtain i j where ij: "(i, j) \<in> G" "i < length ids" "j < length ids"
      "ids ! i \<noteq> - 1" "ids ! j \<noteq> - 1" "ids ! j \<noteq> ids ! i"
    and v': "v' = (retag (ids ! j) (ids ! i) ids,
                (ca[nat (ids ! i) := ca ! nat (ids ! i) @ ca ! nat (ids ! j)])[nat (ids ! j) := []], mx)"
    by (auto simp: step_merge_def)
  from assms(1) v have len: "length ids = N" and wf: "wf_part ids ca mx"
    and so: "\<And>a b. linked ids a b \<Longrightarrow> (a, b) \<in> conn G"
    by (simp_all add: cinv_def)
  let ?f = "ids ! j" and ?t = "ids ! i"
  let ?ids = "retag ?f ?t ids"
  have t: "0 \<le> ?t" "nat ?t < length ca" using wf_part_id[OF wf ij(2,4)] by simp_all
  have f: "0 \<le> ?f" "nat ?f < length ca" using wf_part_id[OF wf ij(3,5)] by simp_all
  have wf': "wf_part ?ids ((ca[nat ?t := ca ! nat ?t @ ca ! nat ?f])[nat ?f := []]) mx"
    by (rule wf_part_merge[OF wf f t ij(6)])
  have ji: "(j, i) \<in> conn G" using conn_sym[OF conn_edge[OF ij(1)]] .
  have toi: "(a, i) \<in> conn G" if a: "a < length ids" "?ids ! a = ?t" for a
  proof (cases "ids ! a = ?f")
    case True
    then have "linked ids a j" using a ij by (simp add: linked_def)
    then show ?thesis using so ji conn_trans by blast
  next
    case False
    then have "ids ! a = ?t" using a by (simp add: retag_nth)
    then have "linked ids a i" using a ij by (simp add: linked_def)
    then show ?thesis by (rule so)
  qed
  have l': "(a, b) \<in> conn G" if "linked ?ids a b" for a b
  proof -
    have ab: "a < length ids" "b < length ids" "?ids ! a = ?ids ! b" "?ids ! a \<noteq> - 1"
      using that by (simp_all add: linked_def retag_length)
    show ?thesis
    proof (cases "?ids ! a = ?t")
      case True
      then show ?thesis using toi[OF ab(1)] toi[OF ab(2)] ab(3) conn_sym conn_trans by metis
    next
      case False
      then have "ids ! a = ?ids ! a" "ids ! b = ?ids ! b"
        using ab by (auto simp: retag_nth split: if_splits)
      then have "linked ids a b" using ab by (simp add: linked_def)
      then show ?thesis by (rule so)
    qed
  qed
  have g1: "\<forall>b<length ids. ids ! b \<noteq> - 1 \<longrightarrow> ?ids ! b \<noteq> - 1"
    using ij by (auto simp: retag_nth)
  have g2: "\<forall>a b. linked ids a b \<longrightarrow> linked ?ids a b"
    using ij by (auto simp: linked_def retag_nth retag_length)
  show ?thesis
    unfolding v v' cinv_def grows_def using len wf' l' g1 g2 by (simp add: retag_length)
qed

lemma cstep_cinv:
  assumes "cinv G N v" "cstep G v v'"
  shows "cinv G N v' \<and> grows v v'"
  using assms step_new_cinv step_join_cinv step_merge_cinv unfolding cstep_def by blast

lemma set_cluster_id_ids: "map cluster_id (set_cluster_id bs n c) = (map cluster_id bs)[n := c]"
  by (simp add: set_cluster_id_def map_update)

lemma cinv_steps:
  assumes "(cstep G)\<^sup>*\<^sup>* v v'" "cinv G N v"
  shows "cinv G N v' \<and> grows v v'"
  using assms
proof (induction rule: rtranclp_induct)
  case base
  then show ?case by (simp add: grows_refl)
next
  case (step y z)
  then have y: "cinv G N y" "grows v y" by simp_all
  from cstep_cinv[OF y(1) step.hyps(2)] have z: "cinv G N z" "grows y z" by simp_all
  have "grows v z" using y(2) z(2) unfolding grows_def by blast
  then show ?case using z(1) by simp
qed

lemma new_cluster_step:
  assumes inv: "cinv G N (cview st)" and i: "i < length (m_Birds st)"
  shows "(cstep G)\<^sup>*\<^sup>* (cview st) (cview (new_cluster i st)) \<and>
         cluster_id (m_Birds (new_cluster i st) ! i) \<noteq> - 1"
proof (cases "cluster_id (m_Birds st ! i) = - 1")
  case False
  then show ?thesis by (simp add: new_cluster_def)
next
  case True
  have mx: "max_cluster_id st = int (length (cluster_assignment st)) - 1"
    using inv wf_part_max by (auto simp: cinv_def cview_def)
  have "step_new (cview st) (cview (new_cluster i st))"
    unfolding step_new_def cview_def prod.case
    by (rule exI[of _ i]) (use True i in \<open>simp add: new_cluster_def set_cluster_id_ids\<close>)
  moreover have "cluster_id (m_Birds (new_cluster i st) ! i) \<noteq> - 1"
    using True i mx by (simp add: new_cluster_def set_cluster_id_def)
  ultimately show ?thesis by (auto simp: cstep_def)
qed

lemma cluster_join_step:
  assumes inv: "cinv G N (cview st)" and ij: "(i, j) \<in> G" "i < length (m_Birds st)"
      "j < length (m_Birds st)" "cluster_id (m_Birds st ! i) \<noteq> - 1"
    and r: "cluster_join i j st = Inr st'"
  shows "(cstep G)\<^sup>*\<^sup>* (cview st) (cview st') \<and> length (m_Birds st') = length (m_Birds st) \<and>
         cluster_id (m_Birds st' ! j) \<noteq> - 1 \<and>
         cluster_id (m_Birds st' ! i) = cluster_id (m_Birds st ! i)"
proof (cases "cluster_id (m_Birds st ! j) = - 1")
  case False
  then have "st' = st" using r by (simp add: cluster_join_def)
  then show ?thesis using False by simp
next
  case True
  let ?c = "cluster_id (m_Birds st ! i)"
  from r True have inb: "0 \<le> ?c" "nat ?c < length (cluster_assignment st)"
    and st': "st' = st\<lparr> m_Birds := set_cluster_id (m_Birds st) j ?c,
        cluster_assignment := (cluster_assignment st)[nat ?c := cluster_assignment st ! nat ?c @ [j]] \<rparr>"
    by (auto simp: cluster_join_def push_cluster_def split: if_splits)
  have ne: "i \<noteq> j" using True ij by auto
  have "step_join G (cview st) (cview st')"
    unfolding step_join_def cview_def st' prod.case
    by (rule exI[of _ i], rule exI[of _ j]) (use True ij in \<open>simp add: set_cluster_id_ids\<close>)
  moreover have "cluster_id (m_Birds st' ! j) \<noteq> - 1" "cluster_id (m_Birds st' ! i) = ?c"
    "length (m_Birds st') = length (m_Birds st)"
    unfolding st' using ij ne by (simp_all add: set_cluster_id_def)
  ultimately show ?thesis by (auto simp: cstep_def)
qed

lemma fold_update_nth:
  "b < length ids \<Longrightarrow> fold (\<lambda>k xs. xs[k := t]) L ids ! b = (if b \<in> set L then t else ids ! b)"
  "length (fold (\<lambda>k xs. xs[k := t]) L ids) = length ids"
proof -
  show l: "length (fold (\<lambda>k xs. xs[k := t]) L ids) = length ids" for ids
    by (induction L arbitrary: ids) simp_all
  show "b < length ids \<Longrightarrow> fold (\<lambda>k xs. xs[k := t]) L ids ! b = (if b \<in> set L then t else ids ! b)"
  proof (induction L arbitrary: ids)
    case Nil
    then show ?case by simp
  next
    case (Cons k L)
    then show ?case by (auto simp: nth_list_update)
  qed
qed

lemma merge_loop_effect:
  assumes "efold (merge_member t) L st = Inr st'"
  shows "map cluster_id (m_Birds st') = fold (\<lambda>k xs. xs[k := t]) L (map cluster_id (m_Birds st)) \<and>
         cluster_assignment st' =
           (if L = [] then cluster_assignment st
            else (cluster_assignment st)[nat t := cluster_assignment st ! nat t @ L]) \<and>
         max_cluster_id st' = max_cluster_id st"
  using assms
proof (induction L arbitrary: st)
  case Nil
  then show ?case by simp
next
  case (Cons k L)
  from Cons.prems obtain s1 where s1: "merge_member t k st = Inr s1"
    and rest: "efold (merge_member t) L s1 = Inr st'"
    by (auto split: sum.splits)
  let ?ca = "cluster_assignment st"
  from s1 have inb: "0 \<le> t" "nat t < length ?ca"
    and e1: "s1 = st\<lparr> m_Birds := set_cluster_id (m_Birds st) k t,
        cluster_assignment := ?ca[nat t := ?ca ! nat t @ [k]] \<rparr>"
    by (auto simp: merge_member_def push_cluster_def split: if_splits)
  note ih = Cons.IH[OF rest]
  have ids: "map cluster_id (m_Birds s1) = (map cluster_id (m_Birds st))[k := t]"
    unfolding e1 by (simp add: set_cluster_id_ids)
  have ca1: "cluster_assignment s1 = ?ca[nat t := ?ca ! nat t @ [k]]" unfolding e1 by simp
  have "(if L = [] then cluster_assignment s1
         else (cluster_assignment s1)[nat t := cluster_assignment s1 ! nat t @ L])
      = ?ca[nat t := ?ca ! nat t @ k # L]"
    unfolding ca1 using inb by simp
  then show ?case using ih ids e1 by simp
qed

lemma cluster_merge_step:
  assumes inv: "cinv G N (cview st)" and ij: "(i, j) \<in> G" "i < length (m_Birds st)"
      "j < length (m_Birds st)" "cluster_id (m_Birds st ! i) \<noteq> - 1" "cluster_id (m_Birds st ! j) \<noteq> - 1"
    and r: "cluster_merge i j st = Inr st'"
  shows "(cstep G)\<^sup>*\<^sup>* (cview st) (cview st') \<and>
         cluster_id (m_Birds st' ! j) = cluster_id (m_Birds st' ! i) \<and>
         cluster_id (m_Birds st' ! i) = cluster_id (m_Birds st ! i)"
proof (cases "cluster_id (m_Birds st ! j) = cluster_id (m_Birds st ! i)")
  case True
  then have "st' = st" using r by (simp add: cluster_merge_def)
  then show ?thesis using True by simp
next
  case False
  let ?ids = "map cluster_id (m_Birds st)" and ?ca = "cluster_assignment st"
  let ?f = "cluster_id (m_Birds st ! j)" and ?t = "cluster_id (m_Birds st ! i)"
  have wf: "wf_part ?ids ?ca (max_cluster_id st)" using inv by (simp add: cinv_def cview_def)
  have idi: "?ids ! i = ?t" "?ids ! j = ?f" using ij by simp_all
  have t: "0 \<le> ?t" "nat ?t < length ?ca" using wf_part_id[OF wf, of i] ij idi by simp_all
  have f: "0 \<le> ?f" "nat ?f < length ?ca" using wf_part_id[OF wf, of j] ij idi by simp_all
  let ?L = "?ca ! nat ?f"
  from r False f obtain s1 where s1: "efold (merge_member ?t) ?L st = Inr s1"
    and st': "st' = s1\<lparr> cluster_assignment := (cluster_assignment s1)[nat ?f := []] \<rparr>"
    by (auto simp: cluster_merge_def Let_def at_cluster_def split: sum.splits if_splits)
  note eff = merge_loop_effect[OF s1]
  have mem: "b \<in> set ?L \<longleftrightarrow> ?ids ! b = ?f" if "b < length ?ids" for b
  proof
    assume "b \<in> set ?L"
    from wf_part_member[OF wf f(2) this] f show "?ids ! b = ?f" by simp
  next
    assume a: "?ids ! b = ?f"
    then have "?ids ! b \<noteq> - 1" using ij by simp
    from wf_part_id[OF wf that this] a show "b \<in> set ?L" by simp
  qed
  have ids': "map cluster_id (m_Birds st') = retag ?f ?t ?ids"
  proof (rule nth_equalityI)
    show "length (map cluster_id (m_Birds st')) = length (retag ?f ?t ?ids)"
      using eff st' by (simp add: fold_update_nth(2) retag_length)
  next
    fix b assume "b < length (map cluster_id (m_Birds st'))"
    then have b: "b < length ?ids" using eff st' by (simp add: fold_update_nth(2))
    have "map cluster_id (m_Birds st') ! b = fold (\<lambda>k xs. xs[k := ?t]) ?L ?ids ! b"
      using eff st' by simp
    also have "\<dots> = (if b \<in> set ?L then ?t else ?ids ! b)" by (rule fold_update_nth(1)[OF b])
    also have "\<dots> = retag ?f ?t ?ids ! b" using mem[OF b] b by (simp add: retag_nth)
    finally show "map cluster_id (m_Birds st') ! b = retag ?f ?t ?ids ! b" .
  qed
  have ca': "cluster_assignment st' = (?ca[nat ?t := ?ca ! nat ?t @ ?L])[nat ?f := []]"
  proof (cases "?L = []")
    case True
    then show ?thesis using eff st' t by (simp add: list_update_same_conv)
  next
    case False
    then show ?thesis using eff st' by simp
  qed
  have mx': "max_cluster_id st' = max_cluster_id st" using eff st' by simp
  have "step_merge G (cview st) (cview st')"
    unfolding step_merge_def cview_def prod.case
    by (rule exI[of _ i], rule exI[of _ j]) (use ij False ids' ca' mx' idi in simp)
  moreover have "cluster_id (m_Birds st' ! i) = ?t" "cluster_id (m_Birds st' ! j) = ?t"
  proof -
    have li: "i < length (m_Birds st')" "j < length (m_Birds st')"
      using ids' ij by (metis length_map retag_length)+
    have "map cluster_id (m_Birds st') ! i = ?t" "map cluster_id (m_Birds st') ! j = ?t"
      unfolding ids' using ij idi by (simp_all add: retag_nth)
    then show "cluster_id (m_Birds st' ! i) = ?t" "cluster_id (m_Birds st' ! j) = ?t"
      using li by simp_all
  qed
  ultimately show ?thesis by (auto simp: cstep_def)
qed

lemma sgrows_refl: "sgrows st st"
  by (simp add: sgrows_def grows_refl)

lemma sgrows_trans: "sgrows a b \<Longrightarrow> sgrows b c \<Longrightarrow> sgrows a c"
  unfolding sgrows_def grows_def by blast

lemma sgrows_cview: "cview st' = cview st \<Longrightarrow> sgrows st st'"
  by (simp add: sgrows_def grows_refl)

lemma sinv_length: "sinv prm bs st \<Longrightarrow> length (m_Birds st) = length bs"
  unfolding sinv_def using map_eq_imp_length_eq by blast

lemma sinv_pos: "sinv prm bs st \<Longrightarrow> j < length bs \<Longrightarrow> pos (m_Birds st ! j) = pos (bs ! j)"
  unfolding sinv_def by (metis length_map nth_map)

lemma same_geom_map_pos: "same_geom st st' \<Longrightarrow> map pos (m_Birds st') = map pos (m_Birds st)"
  using same_geom_except[of st st' 0] by (simp add: same_except_def)

lemma sinv_steps:
  assumes "sinv prm bs st" "(cstep (close_graph prm bs))\<^sup>*\<^sup>* (cview st) (cview st')"
    and "map pos (m_Birds st') = map pos (m_Birds st)"
  shows "sinv prm bs st' \<and> sgrows st st'"
proof -
  have c: "cinv (close_graph prm bs) (length bs) (cview st)" using assms(1) by (simp add: sinv_def)
  from cinv_steps[OF assms(2) c] have "cinv (close_graph prm bs) (length bs) (cview st')"
    "grows (cview st) (cview st')" by simp_all
  then show ?thesis using assms(1,3) by (simp add: sinv_def sgrows_def)
qed

lemma sinv_cview:
  assumes "sinv prm bs st" "cview st' = cview st" "map pos (m_Birds st') = map pos (m_Birds st)"
  shows "sinv prm bs st' \<and> sgrows st st'"
  using assms sgrows_cview[of st' st] by (simp add: sinv_def)

lemma cluster_pair_sinv:
  assumes inv: "sinv prm bs st" and ij: "(i, j) \<in> close_graph prm bs"
    and ci: "cluster_id (m_Birds st ! i) \<noteq> - 1"
    and r: "cluster_pair i j st = Inr st'"
  shows "sinv prm bs st' \<and> sgrows st st' \<and>
         cluster_id (m_Birds st' ! i) \<noteq> - 1 \<and>
         cluster_id (m_Birds st' ! j) = cluster_id (m_Birds st' ! i)"
proof -
  let ?G = "close_graph prm bs"
  have len: "length (m_Birds st) = length bs" by (rule sinv_length[OF inv])
  have ijl: "i < length (m_Birds st)" "j < length (m_Birds st)"
    using ij len by (simp_all add: close_graph_def)
  have c: "cinv ?G (length bs) (cview st)" using inv by (simp add: sinv_def)
  from r obtain s1 where j1: "cluster_join i j st = Inr s1" and m1: "cluster_merge i j s1 = Inr st'"
    by (auto simp: cluster_pair_def split: sum.splits)
  from cluster_join_step[OF c ij ijl ci j1]
  have a: "(cstep ?G)\<^sup>*\<^sup>* (cview st) (cview s1)" "length (m_Birds s1) = length (m_Birds st)"
    "cluster_id (m_Birds s1 ! j) \<noteq> - 1" "cluster_id (m_Birds s1 ! i) = cluster_id (m_Birds st ! i)"
    by simp_all
  have c1: "cinv ?G (length bs) (cview s1)" using cinv_steps[OF a(1) c] by simp
  have "(cstep ?G)\<^sup>*\<^sup>* (cview s1) (cview st') \<and>
         cluster_id (m_Birds st' ! j) = cluster_id (m_Birds st' ! i) \<and>
         cluster_id (m_Birds st' ! i) = cluster_id (m_Birds s1 ! i)"
    by (rule cluster_merge_step[OF c1 ij _ _ _ _ m1]) (use a ijl ci in simp_all)
  then have b: "(cstep ?G)\<^sup>*\<^sup>* (cview s1) (cview st')"
    "cluster_id (m_Birds st' ! j) = cluster_id (m_Birds st' ! i)"
    "cluster_id (m_Birds st' ! i) = cluster_id (m_Birds s1 ! i)" by simp_all
  have steps: "(cstep ?G)\<^sup>*\<^sup>* (cview st) (cview st')" using a(1) b(1) by simp
  have "map pos (m_Birds st') = map pos (m_Birds st)"
    by (rule same_geom_map_pos[OF cluster_pair_geom[OF r]])
  from sinv_steps[OF inv steps this] show ?thesis using a b ci by simp
qed

lemma count_r_nbrs_cview: "cview (count_r_nbrs i st) = cview st"
  unfolding cview_def count_r_nbrs_def by (simp add: map_update_same)

lemma clear_bird_cview: "cview (clear_bird i st) = cview st"
  unfolding cview_def clear_bird_def by (simp add: map_update_same)

lemma nbr_test_cview:
  assumes "nbr_test prm nrm rd2 i posi diri j posj dsq st = Inr st'"
  shows "cview st' = cview st"
proof -
  have "st' = st \<or> (\<exists>s. nbr_insert (neighbors prm) dsq j st = Inr s \<and> st' = count_r_nbrs i s)"
    using assms unfolding nbr_test_def Let_def by (auto split: if_splits sum.splits)
  then show ?thesis
    using nbr_insert_birds count_r_nbrs_cview by (auto simp: cview_def)
qed

lemma add_nbr_cview: "add_nbr i k st = Inr st' \<Longrightarrow> cview st' = cview st"
  unfolding add_nbr_def Let_def cview_def by (auto split: if_splits simp: map_update_same)

lemma finish_bird_cview: "finish_bird i st = Inr st' \<Longrightarrow> cview st' = cview st"
  unfolding finish_bird_def Let_def cview_def by (auto split: if_splits simp: map_update_same)

lemma aggregate_cview:
  assumes "aggregate i st = Inr st'"
  shows "cview st' = cview st"
proof -
  from assms obtain u where u: "efold (add_nbr i) [0..<nat (sort_num st)] st = Inr u"
    and f: "finish_bird i u = Inr st'"
    by (auto simp: aggregate_def split: sum.splits)
  have "cview u = cview st"
    by (rule efold_invariant[OF u, where I = "\<lambda>t. cview t = cview st"])
       (use add_nbr_cview in auto)
  then show ?thesis using finish_bird_cview[OF f] by simp
qed

lemma fst_cview: "fst (cview st) = cids st"
  by (simp add: cview_def cids_def)

lemma sgrows_linked: "sgrows st st' \<Longrightarrow> linked (cids st) a b \<Longrightarrow> linked (cids st') a b"
  unfolding sgrows_def grows_def fst_cview by blast

lemma linked_self: "linked (cids st) i i \<longleftrightarrow> i < length (m_Birds st) \<and> cluster_id (m_Birds st ! i) \<noteq> - 1"
  by (auto simp: linked_def cids_def)

lemma visit_sinv:
  assumes inv: "sinv prm bs st" and i: "i < length bs"
    and ci: "cluster_id (m_Birds st ! i) \<noteq> - 1"
    and v: "visit prm nrm rd2 i (pos (bs ! i)) diri j st = Inr st'"
  shows "sinv prm bs st' \<and> sgrows st st' \<and>
         (j < length bs \<and> j \<noteq> i \<and> close_pair prm bs i j \<longrightarrow> linked (cids st') i j)"
proof (cases "j \<ge> length (m_Birds st) \<or> i = j")
  case True
  then have "st' = st" using v by (auto simp: visit_def split: if_splits)
  then show ?thesis using inv True sinv_length[OF inv] by (auto simp: sgrows_refl)
next
  case False
  have len: "length (m_Birds st) = length bs" by (rule sinv_length[OF inv])
  then have j: "j < length bs" "j \<noteq> i" using False by auto
  let ?posj = "pos (m_Birds st ! j)"
  let ?dsq = "dist_sq (pos (bs ! i)) ?posj"
  have pj: "?posj = pos (bs ! j)" by (rule sinv_pos[OF inv j(1)])
  from v False obtain s1 where c: "cluster_test prm i j ?dsq st = Inr s1"
    and n: "nbr_test prm nrm rd2 i (pos (bs ! i)) diri j ?posj ?dsq s1 = Inr st'"
    by (auto simp: visit_def Let_def split: if_splits sum.splits)
  have cl: "close_pair prm bs i j \<longleftrightarrow>
      flt_less ?dsq (fmul (cluster_threshold_dist prm) (cluster_threshold_dist prm))"
    unfolding close_pair_def pj by simp
  have a: "sinv prm bs s1 \<and> sgrows st s1 \<and> (close_pair prm bs i j \<longrightarrow> linked (cids s1) i j)"
  proof (cases "close_pair prm bs i j")
    case True
    then have cp: "cluster_pair i j st = Inr s1" using c cl by (simp add: cluster_test_def)
    have g: "(i, j) \<in> close_graph prm bs" using True i j by (simp add: close_graph_def)
    note r = cluster_pair_sinv[OF inv g ci cp]
    then have "length (m_Birds s1) = length bs" using sinv_length by blast
    then have "linked (cids s1) i j" using r i j by (simp add: linked_def cids_def)
    then show ?thesis using r by simp
  next
    case False
    then have "s1 = st" using c cl by (simp add: cluster_test_def)
    then show ?thesis using inv False by (simp add: sgrows_refl)
  qed
  have "sinv prm bs st' \<and> sgrows s1 st'"
    by (rule sinv_cview[OF _ nbr_test_cview[OF n] same_geom_map_pos[OF nbr_test_geom[OF n]]])
       (use a in simp)
  then show ?thesis using a sgrows_trans sgrows_linked by blast
qed

lemma visit_loop_sinv:
  assumes "efold (visit prm nrm rd2 i (pos (bs ! i)) diri) js st = Inr st'"
    and "sinv prm bs st" "i < length bs" "cluster_id (m_Birds st ! i) \<noteq> - 1"
  shows "sinv prm bs st' \<and> sgrows st st' \<and>
         (\<forall>j\<in>set js. j < length bs \<and> j \<noteq> i \<and> close_pair prm bs i j \<longrightarrow> linked (cids st') i j)"
  using assms
proof (induction js arbitrary: st)
  case Nil
  then show ?case by (simp add: sgrows_refl)
next
  case (Cons j js)
  from Cons.prems(1) obtain s where s: "visit prm nrm rd2 i (pos (bs ! i)) diri j st = Inr s"
    and rest: "efold (visit prm nrm rd2 i (pos (bs ! i)) diri) js s = Inr st'"
    by (auto split: sum.splits)
  note a = visit_sinv[OF Cons.prems(2,3,4) s]
  have li: "linked (cids st) i i"
    using Cons.prems(2,3,4) sinv_length by (simp add: linked_self)
  then have "linked (cids s) i i" using a sgrows_linked by blast
  then have ci: "cluster_id (m_Birds s ! i) \<noteq> - 1" by (simp add: linked_self)
  have b: "sinv prm bs st' \<and> sgrows s st' \<and>
         (\<forall>j\<in>set js. j < length bs \<and> j \<noteq> i \<and> close_pair prm bs i j \<longrightarrow> linked (cids st') i j)"
    by (rule Cons.IH[OF rest _ Cons.prems(3) ci]) (use a in simp)
  show ?case using a b sgrows_trans sgrows_linked by auto
qed

lemma bird_scan_sinv:
  assumes inv: "sinv prm bs st"
    and r: "bird_scan acc prm nrm rd2 nadj g i st = Inr sc"
  shows "sinv prm bs sc \<and> sgrows st sc \<and> i < length bs \<and> linked (cids sc) i i \<and>
         (FGCELL g ! i \<noteq> GRID_UNDEF \<longrightarrow>
            (\<forall>j\<in>set (window_entries acc g (int (FGCELL g ! i) - nadj)).
               j < length bs \<and> j \<noteq> i \<and> close_pair prm bs i j \<longrightarrow> linked (cids sc) i j))"
proof -
  let ?G = "close_graph prm bs"
  let ?s1 = "new_cluster i st"
  let ?s2 = "clear_bird i ?s1"
  have len: "length (m_Birds st) = length bs" by (rule sinv_length[OF inv])
  from r have il: "i < length (m_Birds st)" by (auto simp: bird_scan_def split: if_splits)
  then have i: "i < length bs" using len by simp
  have c: "cinv ?G (length bs) (cview st)" using inv by (simp add: sinv_def)
  note n = new_cluster_step[OF c il]
  have p1: "map pos (m_Birds ?s1) = map pos (m_Birds st)"
    by (rule same_geom_map_pos[OF new_cluster_geom])
  have a1: "sinv prm bs ?s1 \<and> sgrows st ?s1" by (rule sinv_steps[OF inv _ p1]) (use n in simp)
  have p2: "map pos (m_Birds ?s2) = map pos (m_Birds ?s1)"
    using clear_bird_except[of i ?s1] by (simp add: same_except_def)
  have a2: "sinv prm bs ?s2 \<and> sgrows ?s1 ?s2"
    by (rule sinv_cview[OF _ clear_bird_cview p2]) (use a1 in simp)
  have l1: "length (m_Birds ?s1) = length bs" using a1 sinv_length by blast
  have "linked (cids ?s1) i i" using n i l1 by (simp add: linked_self)
  then have l2: "linked (cids ?s2) i i" using a2 sgrows_linked by blast
  then have ci2: "cluster_id (m_Birds ?s2 ! i) \<noteq> - 1" by (simp add: linked_self)
  have pi: "pos (m_Birds st ! i) = pos (bs ! i)" by (rule sinv_pos[OF inv i])
  show ?thesis
  proof (cases "FGCELL g ! i \<noteq> GRID_UNDEF")
    case False
    then have "sc = ?s2" using r by (auto simp: bird_scan_def Let_def split: if_splits)
    then show ?thesis using a1 a2 l2 i False sgrows_trans by blast
  next
    case True
    then have "scan_window (visit prm nrm rd2 i (pos (bs ! i)) (nrm (vel (m_Birds ?s1 ! i))))
        acc g (int (FGCELL g ! i) - nadj) ?s2 = Inr sc"
      using r pi by (auto simp: bird_scan_def Let_def split: if_splits)
    from visit_loop_sinv[OF scan_window_efold[OF this] _ i ci2] a2
    have b: "sinv prm bs sc" "sgrows ?s2 sc"
      "\<forall>j\<in>set (window_entries acc g (int (FGCELL g ! i) - nadj)).
          j < length bs \<and> j \<noteq> i \<and> close_pair prm bs i j \<longrightarrow> linked (cids sc) i j"
      by simp_all
    have "sgrows st sc" using a1 a2 b(2) sgrows_trans by blast
    moreover have "linked (cids sc) i i" using l2 b(2) sgrows_linked by blast
    ultimately show ?thesis using b i by simp
  qed
qed

lemma bird_step_sinv:
  assumes inv: "sinv prm bs st"
    and r: "bird_step acc prm nrm rd2 nadj g i st = Inr st'"
  shows "sinv prm bs st' \<and> sgrows st st' \<and> i < length bs \<and> linked (cids st') i i \<and>
         (FGCELL g ! i \<noteq> GRID_UNDEF \<longrightarrow>
            (\<forall>j\<in>set (window_entries acc g (int (FGCELL g ! i) - nadj)).
               j < length bs \<and> j \<noteq> i \<and> close_pair prm bs i j \<longrightarrow> linked (cids st') i j))"
proof -
  from r obtain sc where sc: "bird_scan acc prm nrm rd2 nadj g i st = Inr sc"
    and a: "aggregate i sc = Inr st'"
    by (auto simp: bird_step_def split: sum.splits)
  note b = bird_scan_sinv[OF inv sc]
  have il: "i < length (m_Birds sc)" using b by (simp add: linked_self)
  have mp: "map pos (m_Birds st') = map pos (m_Birds sc)"
    using aggregate_result[OF il a] by (simp add: same_except_def)
  have "sinv prm bs st' \<and> sgrows sc st'"
    by (rule sinv_cview[OF _ aggregate_cview[OF a] mp]) (use b in simp)
  then have c: "sinv prm bs st'" "sgrows sc st'" by simp_all
  have g: "sgrows st st'" using b c(2) sgrows_trans by blast
  have l: "linked (cids sc) a b' \<Longrightarrow> linked (cids st') a b'" for a b'
    using c(2) sgrows_linked by blast
  show ?thesis using b c(1) g l by simp
qed

end
